theory Spec2Isabelle
  imports Complex_Main "HOL-Library.Log_Nat"
begin

section \<open>JavaScript numbers and strings\<close>

text \<open>
  \<^verbatim>\<open>index.js\<close> computes with JavaScript Numbers, which are IEEE-754 binary64 values.
  A finite Number is modelled by the rational it denotes, and every arithmetic
  operation of the source is the exact operation followed by \<open>round_double\<close>, the
  round-to-nearest, ties-to-even rounding of binary64 (53-bit significand, smallest
  exponent \<open>-1074\<close>).  Overflow to \<open>Infinity\<close> is not modelled: the program only subtracts
  positive numbers from one another and adds \<open>1\<close> to counters.
\<close>

definition expo :: "rat \<Rightarrow> int" where
  "expo x = (if 1 \<le> x then bitlen \<lfloor>x\<rfloor> - 1 else - bitlen (\<lceil>1 / x\<rceil> - 1))"

definition ulp :: "rat \<Rightarrow> rat" where
  "ulp x = 2 powi (max (expo x - 52) (- 1074))"

definition round_half_even :: "rat \<Rightarrow> int" where
  "round_half_even q =
     (let f = \<lfloor>q\<rfloor>; r = q - of_int f
      in if r < 1 / 2 then f else if 1 / 2 < r then f + 1 else if even f then f else f + 1)"

definition round_double :: "rat \<Rightarrow> rat" where
  "round_double x =
     (if x = 0 then 0
      else if 0 < x then of_int (round_half_even (x / ulp x)) * ulp x
      else - (of_int (round_half_even (- x / ulp (- x))) * ulp (- x)))"

text \<open>The rationals that are values of finite Numbers.\<close>

definition is_double :: "rat \<Rightarrow> bool" where
  "is_double x = (\<bar>x\<bar> < 2 ^ 1024 \<and> (x = 0 \<or> of_int \<lfloor>\<bar>x\<bar> / ulp \<bar>x\<bar>\<rfloor> = \<bar>x\<bar> / ulp \<bar>x\<bar>))"

text \<open>The operators \<^verbatim>\<open>a - b\<close> and \<^verbatim>\<open>a + b\<close> on Numbers.\<close>

definition num_sub :: "rat \<Rightarrow> rat \<Rightarrow> rat" where
  "num_sub a b = round_double (a - b)"

definition num_add :: "rat \<Rightarrow> rat \<Rightarrow> rat" where
  "num_add a b = round_double (a + b)"

text \<open>Decimal digits of a natural number, as \<^verbatim>\<open>String(n)\<close> prints an integer below \<open>10^21\<close>.\<close>

definition digit_char :: "nat \<Rightarrow> char" where
  "digit_char n = ''0123456789'' ! n"

fun show_nat :: "nat \<Rightarrow> string" where
  "show_nat n = (if n < 10 then [digit_char n] else show_nat (n div 10) @ [digit_char (n mod 10)])"

declare show_nat.simps [simp del]

text \<open>
  A Number in a template literal, \<^verbatim>\<open>`${index}`\<close>: the source only prints
  non-negative integer values this way (the segment counter and the constant \<open>5\<close>).
\<close>

definition num_to_string :: "rat \<Rightarrow> string" where
  "num_to_string x = show_nat (nat \<lfloor>x\<rfloor>)"

text \<open>
  \<^verbatim>\<open>Number.prototype.toFixed(f)\<close> for \<open>\<bar>x\<bar> < 10^21\<close>: the integer \<open>n\<close> with \<open>n / 10^f\<close> nearest
  to \<open>\<bar>x\<bar>\<close> (the larger one on a tie), printed with at least \<open>f + 1\<close> digits and a point
  before the last \<open>f\<close>.
\<close>

definition toFixed_n :: "nat \<Rightarrow> rat \<Rightarrow> int" where
  "toFixed_n f x = \<lfloor>\<bar>x\<bar> * 10 ^ f + 1 / 2\<rfloor>"

definition toFixed :: "nat \<Rightarrow> rat \<Rightarrow> string" where
  "toFixed f x =
     (let s = (if x < 0 then ''-'' else '''');
          m = show_nat (nat (toFixed_n f x));
          m' = replicate (Suc f - length m) CHR ''0'' @ m;
          k = length m'
      in if f = 0 then s @ m else s @ take (k - f) m' @ ''.'' @ drop (k - f) m')"

definition CRLF :: string where
  "CRLF = [CHR 0x0D, CHR 0x0A]"

section \<open>Configuration constants\<close>

definition transcodePath :: string where
  "transcodePath = ''transcoding-tmp/''"

definition selfDestructDuration :: int where
  "selfDestructDuration = 60"

definition hlsSegmentDuration :: rat where
  "hlsSegmentDuration = 5"

definition hlsSegmentMaxGap :: rat where
  "hlsSegmentMaxGap = 3"

definition maxProcess :: nat where
  "maxProcess = 3"

section \<open>Exceptions\<close>

text \<open>
  The exceptions of the modelled code: the \<^verbatim>\<open>TypeError\<close> of a method call on \<^verbatim>\<open>undefined\<close>, the
  \<^verbatim>\<open>RangeError: Invalid string length\<close> of a string concatenation, and the error that
  \<^verbatim>\<open>fs.writeFileSync\<close> throws.  None of them is caught anywhere in the source.
\<close>

datatype failure = TypeError | RangeError | FsError

section \<open>The files of the transcode directory\<close>

text \<open>
  The file system is modelled as far as the program uses it: the regular files directly
  inside \<open>transcodePath\<close>, as an association list from file name to content.
  \<^verbatim>\<open>path.join(transcodePath, name)\<close> addresses the entry \<open>name\<close>.
\<close>

type_synonym files = "(string \<times> string) list"

definition existsSync :: "files \<Rightarrow> string \<Rightarrow> bool" where
  "existsSync fs name = (map_of fs name \<noteq> None)"

text \<open>Creating or replacing the file \<open>name\<close>, and removing it.\<close>

definition write_file :: "string \<Rightarrow> string \<Rightarrow> files \<Rightarrow> files" where
  "write_file name content fs = (name, content) # filter (\<lambda>e. fst e \<noteq> name) fs"

definition unlink_file :: "string \<Rightarrow> files \<Rightarrow> files" where
  "unlink_file name fs = filter (\<lambda>e. fst e \<noteq> name) fs"

text \<open>
  \<^verbatim>\<open>fs.writeFileSync(path.join(transcodePath, name), content)\<close> on a POSIX file system.  The
  directory has no subdirectories, so the call throws (\<^verbatim>\<open>ENOENT\<close>, \<^verbatim>\<open>ENAMETOOLONG\<close>, or the
  error of a null byte in the path) unless \<open>name\<close> is a file name: not empty, at most 255
  bytes, without \<^verbatim>\<open>/\<close> and without a null byte.  Other failures of the write (a full or
  read-only disk) are not modelled.
\<close>

definition valid_filename :: "string \<Rightarrow> bool" where
  "valid_filename name =
     (name \<noteq> [] \<and> length name \<le> 255 \<and> CHR ''/'' \<notin> set name \<and> CHR 0x00 \<notin> set name)"

definition writeFileSync :: "string \<Rightarrow> string \<Rightarrow> files \<Rightarrow> failure + files" where
  "writeFileSync name content fs =
     (if valid_filename name then Inr (write_file name content fs) else Inl FsError)"

section \<open>Playlist synthesis: \<^verbatim>\<open>Stream.generateM3U8\<close>\<close>

text \<open>
  The longest string of the JavaScript engine: \<^verbatim>\<open>String::kMaxLength\<close> of V8 on a 64-bit
  platform, which Node exports as \<^verbatim>\<open>buffer.constants.MAX_STRING_LENGTH\<close>.  A concatenation
  with a longer result throws \<^verbatim>\<open>RangeError: Invalid string length\<close>.
\<close>

definition max_string_length :: nat where
  "max_string_length = 2 ^ 29 - 24"

text \<open>
  The \<^verbatim>\<open>while (duration > 0)\<close> loop of \<^verbatim>\<open>generateM3U8\<close>, with the loop variables
  \<open>duration\<close>, \<open>index\<close> and \<open>content\<close> as arguments (\<open>length'\<close> is the variable \<^verbatim>\<open>length\<close> of
  the source).  Each of the two \<^verbatim>\<open>content += ...\<close> throws when its result is too long.  Every
  round makes \<open>content\<close> longer, so the loop ends on every Number: by leaving the loop or by
  the \<^verbatim>\<open>RangeError\<close>.
\<close>

function m3u8_loop :: "string \<Rightarrow> rat \<Rightarrow> rat \<Rightarrow> string \<Rightarrow> failure + string" where
  "m3u8_loop filename duration index content =
     (if 0 < duration then
        (let length' = (if hlsSegmentDuration \<le> duration then hlsSegmentDuration else duration);
             content1 = content @ ''#EXTINF:'' @ toFixed 4 length' @ '', nodesc'' @ CRLF;
             content2 = content1 @ ''/segment.ts?file='' @ filename @ num_to_string index @ ''.ts'' @ CRLF
         in if max_string_length < length content1 then Inl RangeError
            else if max_string_length < length content2 then Inl RangeError
            else m3u8_loop filename (num_sub duration length') (num_add index 1) content2)
      else Inr content)"
  by pat_completeness auto

termination
  by (relation "measure (\<lambda>(filename, duration, index, content). Suc max_string_length - length content)")
     (auto simp: CRLF_def)

declare m3u8_loop.simps [simp del]

definition m3u8_header :: string where
  "m3u8_header =
     ''#EXTM3U'' @ CRLF @
     ''#EXT-X-VERSION:3'' @ CRLF @
     ''#EXT-X-MEDIA-SEQUENCE:0'' @ CRLF @
     ''#EXT-X-TARGETDURATION: '' @ num_to_string hlsSegmentDuration @ CRLF @
     ''#EXT-X-PLAYLIST-TYPE:VOD'' @ CRLF"

text \<open>
  \<^verbatim>\<open>generateM3U8\<close>: the header, the loop, the last line, the write of the master file.  The
  result is the returned string and the files after the write, or the exception thrown.
\<close>

definition generateM3U8 :: "rat \<Rightarrow> string \<Rightarrow> files \<Rightarrow> failure + (string \<times> files)" where
  "generateM3U8 mediaDuration filename fs =
     (case m3u8_loop filename mediaDuration 0 m3u8_header of
        Inl e \<Rightarrow> Inl e
      | Inr content0 \<Rightarrow>
          (let content = content0 @ ''#EXT-X-ENDLIST''
           in if max_string_length < length content then Inl RangeError
              else (case writeFileSync (filename @ ''_master.m3u8'') content fs of
                      Inl e \<Rightarrow> Inl e
                    | Inr fs' \<Rightarrow> Inr (content, fs'))))"

text \<open>
  The manifest in the words of the specification: entry \<open>k\<close> advertises
  \<open>min (d - 5 k) 5\<close> seconds under the name \<open><identifier><k>.ts\<close>.
\<close>

definition segment_count :: "rat \<Rightarrow> nat" where
  "segment_count d = nat \<lceil>d / hlsSegmentDuration\<rceil>"

definition segment_length :: "rat \<Rightarrow> nat \<Rightarrow> rat" where
  "segment_length d k = min (d - hlsSegmentDuration * of_nat k) hlsSegmentDuration"

definition segment_uri :: "string \<Rightarrow> nat \<Rightarrow> string" where
  "segment_uri identifier k = ''/segment.ts?file='' @ identifier @ show_nat k @ ''.ts''"

definition extinf_entry :: "string \<Rightarrow> rat \<Rightarrow> nat \<Rightarrow> string" where
  "extinf_entry identifier len k =
     ''#EXTINF:'' @ toFixed 4 len @ '', nodesc'' @ CRLF @ segment_uri identifier k @ CRLF"

definition spec_manifest :: "rat \<Rightarrow> string \<Rightarrow> string" where
  "spec_manifest d identifier =
     m3u8_header @
     concat (map (\<lambda>k. extinf_entry identifier (segment_length d k) k) [0..<segment_count d]) @
     ''#EXT-X-ENDLIST''"

section \<open>Numbers parsed from file names\<close>

text \<open>
  A Number that may be \<open>NaN\<close>: segment indices come out of \<^verbatim>\<open>parseInt\<close>.  Comparisons with
  \<open>NaN\<close> are false.
\<close>

datatype jsnum = NaN | Num rat

definition is_digit :: "char \<Rightarrow> bool" where
  "is_digit c = (c \<in> set ''0123456789'')"

definition digit_value :: "char \<Rightarrow> int" where
  "digit_value ch =
     (if ch = CHR ''9'' then 9 else if ch = CHR ''8'' then 8 else if ch = CHR ''7'' then 7
      else if ch = CHR ''6'' then 6 else if ch = CHR ''5'' then 5 else if ch = CHR ''4'' then 4
      else if ch = CHR ''3'' then 3 else if ch = CHR ''2'' then 2 else if ch = CHR ''1'' then 1
      else 0)"

definition digits_value :: "string \<Rightarrow> int" where
  "digits_value ds = foldl (\<lambda>a c. 10 * a + digit_value c) 0 ds"

definition is_space :: "char \<Rightarrow> bool" where
  "is_space c = (c \<in> set [CHR 0x09, CHR 0x0A, CHR 0x0B, CHR 0x0C, CHR 0x0D, CHR '' ''])"

text \<open>
  \<^verbatim>\<open>parseInt(s, 10)\<close>: leading white space and one sign are skipped, the longest run of
  decimal digits is read, and no digit at all gives \<open>NaN\<close>.  The value is a Number, hence
  rounded.
\<close>

definition parseInt :: "string \<Rightarrow> jsnum" where
  "parseInt s =
     (let t = dropWhile is_space s;
          neg = (t \<noteq> [] \<and> hd t = CHR ''-'');
          u = (if t \<noteq> [] \<and> (hd t = CHR ''-'' \<or> hd t = CHR ''+'') then tl t else t);
          ds = takeWhile is_digit u
      in if ds = [] then NaN
         else Num (round_double ((if neg then - 1 else 1) * of_int (digits_value ds))))"

text \<open>\<^verbatim>\<open>name.substring(8).split('.')[0]\<close>, then \<^verbatim>\<open>parseInt\<close>.\<close>

definition index_of_name :: "string \<Rightarrow> jsnum" where
  "index_of_name name = parseInt (takeWhile (\<lambda>c. c \<noteq> CHR ''.'') (drop 8 name))"

section \<open>Gap analysis\<close>

text \<open>
  The regular expression \<^verbatim>\<open>`${streamIdentifier}([0-9]+).ts`\<close> with flag \<^verbatim>\<open>g\<close>, for an
  identifier without regular-expression metacharacters (identifiers are the eight
  hexadecimal digits of \<^verbatim>\<open>uniqueFilename\<close>).  \<open>try_digits k rest\<close> backtracks over the
  length of the greedy \<^verbatim>\<open>[0-9]+\<close>; the unescaped dot matches any character but a line
  terminator.
\<close>

fun try_digits :: "nat \<Rightarrow> string \<Rightarrow> (string \<times> string) option" where
  "try_digits 0 rest = None"
| "try_digits (Suc k) rest =
     (case drop (Suc k) rest of
        c # t # s # rest' \<Rightarrow>
          if c \<noteq> CHR 0x0A \<and> c \<noteq> CHR 0x0D \<and> t = CHR ''t'' \<and> s = CHR ''s''
          then Some (take (Suc k) rest, rest')
          else try_digits k rest
      | _ \<Rightarrow> try_digits k rest)"

definition match_here :: "string \<Rightarrow> string \<Rightarrow> (string \<times> string) option" where
  "match_here ident text =
     (if take (length ident) text = ident
      then (let rest = drop (length ident) text
            in try_digits (length (takeWhile is_digit rest)) rest)
      else None)"

text \<open>The \<^verbatim>\<open>while (matches = regex.exec(file))\<close> loop; \<open>n\<close> bounds the characters left.\<close>

fun regex_matches :: "nat \<Rightarrow> string \<Rightarrow> string \<Rightarrow> string list" where
  "regex_matches 0 ident text = []"
| "regex_matches (Suc n) ident text =
     (case match_here ident text of
        Some (ds, rest) \<Rightarrow> ds # regex_matches (min n (length rest)) ident rest
      | None \<Rightarrow> (case text of [] \<Rightarrow> [] | c # cs \<Rightarrow> regex_matches n ident cs))"

text \<open>
  \<^verbatim>\<open>glob.sync(path.join(transcodePath, pattern))\<close> for the two patterns of the source,
  \<^verbatim>\<open><identifier>*\<close> and \<^verbatim>\<open><identifier>*.ts\<close>; the result of \<^verbatim>\<open>glob.sync\<close> is sorted, so
  its last element is the greatest name.
\<close>

definition glob_prefix :: "string \<Rightarrow> string \<Rightarrow> bool" where
  "glob_prefix ident name = (take (length ident) name = ident)"

definition glob_ts :: "string \<Rightarrow> string \<Rightarrow> bool" where
  "glob_ts ident name =
     (glob_prefix ident name \<and> length ident + 3 \<le> length name \<and>
      drop (length name - 3) name = ''.ts'')"

fun str_less :: "string \<Rightarrow> string \<Rightarrow> bool" where
  "str_less [] [] = False"
| "str_less [] (y # ys) = True"
| "str_less (x # xs) [] = False"
| "str_less (x # xs) (y # ys) = ((of_char x :: nat) < of_char y \<or> (x = y \<and> str_less xs ys))"

definition last_sorted :: "string list \<Rightarrow> string option" where
  "last_sorted names =
     (case names of [] \<Rightarrow> None
      | x # r \<Rightarrow> Some (foldl (\<lambda>m y. if str_less m y then y else m) x r))"

text \<open>
  The gap analysis of \<^verbatim>\<open>StreamSegmentPoller.poll\<close>: the last segment named in the
  transcoder's own \<^verbatim>\<open><identifier>.m3u8\<close>; when reading that file throws, the last
  \<^verbatim>\<open><identifier>*.ts\<close> file; else \<open>0\<close>.
\<close>

definition currentTranscodingIndex :: "files \<Rightarrow> string \<Rightarrow> jsnum" where
  "currentTranscodingIndex fs ident =
     (let fromM3U8 =
            (case map_of fs (ident @ ''.m3u8'') of
               None \<Rightarrow> None
             | Some ffmpegM3u8File \<Rightarrow>
                 (let output = regex_matches (length ffmpegM3u8File + 1) ident ffmpegM3u8File
                  in if output \<noteq> [] then Some (parseInt (last output)) else Some (Num 0)));
          fromFile =
            (case fromM3U8 of
               Some i \<Rightarrow> Some i
             | None \<Rightarrow>
                 (case last_sorted (filter (glob_ts ident) (map fst fs)) of
                    None \<Rightarrow> None
                  | Some lastItem \<Rightarrow> Some (index_of_name lastItem)))
      in case fromFile of None \<Rightarrow> Num 0 | Some i \<Rightarrow> i)"

text \<open>\<^verbatim>\<open>segmentIndex - currentTranscodingIndex >= hlsSegmentMaxGap\<close>.\<close>

definition gap_too_big :: "jsnum \<Rightarrow> jsnum \<Rightarrow> bool" where
  "gap_too_big segmentIndex current =
     (case (segmentIndex, current) of
        (Num i, Num j) \<Rightarrow> hlsSegmentMaxGap \<le> num_sub i j
      | _ \<Rightarrow> False)"

section \<open>Streams, spawn closures, pollers and the server state\<close>

text \<open>
  The callbacks that the source passes around are closures over a response object or
  a poller; each is named by what it closes over.
  \<^item> \<open>DeleteStream ident\<close> is \<^verbatim>\<open>() => { delete streams[streamIdentifier]; }\<close>.
  \<^item> \<open>WatchSuccess r\<close> and \<open>WatchError r a ident\<close> are the two callbacks that the
    \<^verbatim>\<open>/watch.m3u8\<close> handler of request \<open>r\<close> gives to \<^verbatim>\<open>spawn\<close>.
  \<^item> \<open>PollerSuccess p\<close> and \<open>PollerError p\<close> are the two callbacks that poller \<open>p\<close>
    gives to \<^verbatim>\<open>spawn\<close>.
\<close>

datatype finish_cb = DeleteStream string

datatype success_cb = WatchSuccess nat | PollerSuccess nat

datatype error_cb = WatchError nat nat string | PollerError nat

text \<open>
  A \<^verbatim>\<open>Stream\<close> object.  \<open>process\<close> holds the number of the \<^verbatim>\<open>spawn\<close> call that
  created the running \<^verbatim>\<open>ffmpeg\<close> command; \<open>selfDestructTimer\<close> holds the period of the
  interval timer in milliseconds; times are milliseconds.
\<close>

record stream =
  streamUrl :: string
  streamIdentifier :: string
  seekToSegment :: jsnum
  process :: "nat option"
  lastActivity :: int
  selfDestructTimer :: "nat option"
  finishCallback :: finish_cb

text \<open>
  The closure of one call of \<^verbatim>\<open>spawn\<close>: the stream it was called on (\<^verbatim>\<open>this\<close>), the
  latch \<open>initialCallbackSent\<close>, the two callbacks and \<open>placeholderM3U8\<close>.  \<open>probing\<close>
  records that the callback of \<^verbatim>\<open>ffmpeg.ffprobe\<close> has not run yet, \<open>running\<close> that the
  handlers of this closure are attached to a command that was run.
\<close>

record spawn_closure =
  this :: nat
  initialCallbackSent :: bool
  successCallback :: success_cb
  errorCallback :: error_cb
  placeholderM3U8 :: string
  probing :: bool
  running :: bool

text \<open>
  A \<^verbatim>\<open>StreamSegmentPoller\<close>.  \<open>res\<close> is the request whose response its callbacks write;
  \<open>timeouts\<close> counts the pending \<^verbatim>\<open>setTimeout(this.poll, 1000)\<close>.
\<close>

record poller =
  filename :: string
  streamIdentifierP :: string
  segmentIndex :: jsnum
  streamObject :: "nat option"
  maxTries :: rat
  currentTry :: int
  transcodeStarting :: bool
  newTranscoderStarted :: bool
  res :: nat
  timeouts :: nat

text \<open>What the server does to the outside, in order.\<close>

datatype action =
    Respond nat nat string
  | RespondFile nat string
  | Ffprobe nat string
  | FfmpegRun nat jsnum
  | ProcessKill nat
  | CallSuccess nat string
  | CallError nat
  | Finish nat
  | LogPolling nat
  | LogMaxTry nat
  | LogUnlinkError string

text \<open>
  The state of the server: the registry \<open>streams\<close> from identifier to \<^verbatim>\<open>Stream\<close> object,
  the objects themselves by address, the files, the names of the pending \<^verbatim>\<open>fs.unlink\<close> calls,
  the clock, and the trace of actions.
\<close>

record world =
  streams :: "(string \<times> nat) list"
  heap :: "stream list"
  closures :: "spawn_closure list"
  pollers :: "poller list"
  files :: files
  unlinks :: "string list"
  now :: int
  requests :: nat
  trace :: "action list"

type_synonym result = "(failure \<times> world) + world"

text \<open>The constructor of \<^verbatim>\<open>Stream\<close>; \<open>date\<close> is \<^verbatim>\<open>new Date()\<close>.\<close>

definition new_Stream :: "string \<Rightarrow> string \<Rightarrow> jsnum \<Rightarrow> finish_cb \<Rightarrow> int \<Rightarrow> stream" where
  "new_Stream url ident seekTo finish date =
     \<lparr>streamUrl = url, streamIdentifier = ident, seekToSegment = seekTo, process = None,
      lastActivity = date, selfDestructTimer = None, finishCallback = finish\<rparr>"

definition upd_stream :: "nat \<Rightarrow> (stream \<Rightarrow> stream) \<Rightarrow> world \<Rightarrow> world" where
  "upd_stream a f w = w\<lparr>heap := (heap w)[a := f (heap w ! a)]\<rparr>"

definition upd_closure :: "nat \<Rightarrow> (spawn_closure \<Rightarrow> spawn_closure) \<Rightarrow> world \<Rightarrow> world" where
  "upd_closure c f w = w\<lparr>closures := (closures w)[c := f (closures w ! c)]\<rparr>"

definition upd_poller :: "nat \<Rightarrow> (poller \<Rightarrow> poller) \<Rightarrow> world \<Rightarrow> world" where
  "upd_poller p f w = w\<lparr>pollers := (pollers w)[p := f (pollers w ! p)]\<rparr>"

definition act :: "action \<Rightarrow> world \<Rightarrow> world" where
  "act x w = w\<lparr>trace := trace w @ [x]\<rparr>"

definition delete_key :: "string \<Rightarrow> (string \<times> nat) list \<Rightarrow> (string \<times> nat) list" where
  "delete_key k xs = filter (\<lambda>e. fst e \<noteq> k) xs"

section \<open>\<^verbatim>\<open>Stream\<close>: kill, removeFiles, the self-destructor\<close>

text \<open>
  \<^verbatim>\<open>removeFiles\<close>: \<^verbatim>\<open>glob.sync\<close> lists the files of the stream now, and the loop calls the
  asynchronous \<^verbatim>\<open>fs.unlink\<close> on each, from the last to the first.  No file is removed before
  \<^verbatim>\<open>removeFiles\<close> returns: the calls are pending, and each completes later, as an event.
\<close>

definition removeFiles :: "nat \<Rightarrow> world \<Rightarrow> world" where
  "removeFiles a w =
     w\<lparr>unlinks := unlinks w @
        rev (map fst (filter (\<lambda>e. glob_prefix (streamIdentifier (heap w ! a)) (fst e)) (files w)))\<rparr>"

definition call_finish :: "nat \<Rightarrow> world \<Rightarrow> world" where
  "call_finish a w =
     (case finishCallback (heap w ! a) of
        DeleteStream ident \<Rightarrow> (act (Finish a) w)\<lparr>streams := delete_key ident (streams w)\<rparr>)"

definition kill :: "nat \<Rightarrow> bool \<Rightarrow> world \<Rightarrow> world" where
  "kill a remove w =
     (let w1 = upd_stream a (\<lambda>s. s\<lparr>selfDestructTimer := None\<rparr>) w;
          w2 = (case process (heap w1 ! a) of
                  None \<Rightarrow> w1
                | Some c \<Rightarrow> upd_stream a (\<lambda>s. s\<lparr>process := None\<rparr>) (act (ProcessKill c) w1));
          w3 = (if remove then removeFiles a w2 else w2)
      in call_finish a w3)"

definition startSelfDestructor :: "nat \<Rightarrow> world \<Rightarrow> world" where
  "startSelfDestructor a w =
     (if selfDestructTimer (heap w ! a) = None
      then upd_stream a (\<lambda>s. s\<lparr>selfDestructTimer := Some 5000\<rparr>) w
      else w)"

text \<open>
  \<^verbatim>\<open>(new Date() - this.lastActivity) / 1000 > selfDestructDuration\<close>; the difference of two
  dates is a whole number of milliseconds.
\<close>

definition checkDestruct :: "nat \<Rightarrow> world \<Rightarrow> world" where
  "checkDestruct a w =
     (if of_int selfDestructDuration < (of_int (now w - lastActivity (heap w ! a)) :: rat) / 1000
      then kill a True w
      else w)"

section \<open>Pollers: retry and the callbacks of a failed request\<close>

definition retry :: "nat \<Rightarrow> world \<Rightarrow> world" where
  "retry p w = upd_poller p (\<lambda>q. q\<lparr>currentTry := currentTry q + 1, timeouts := Suc (timeouts q)\<rparr>) w"

text \<open>
  The callback \<^verbatim>\<open>errorCallback\<close> of a poller, from the \<^verbatim>\<open>/segment.ts\<close> handler:
  \<^verbatim>\<open>res.writeHead(500); res.end()\<close>.
\<close>

definition poller_errorCallback :: "nat \<Rightarrow> world \<Rightarrow> world" where
  "poller_errorCallback p w = act (Respond (res (pollers w ! p)) 500 []) w"

definition poller_successCallback :: "nat \<Rightarrow> world \<Rightarrow> world" where
  "poller_successCallback p w = act (RespondFile (res (pollers w ! p)) (filename (pollers w ! p))) w"

section \<open>\<^verbatim>\<open>Stream.spawn\<close> and its event handlers\<close>

definition call_success :: "success_cb \<Rightarrow> string \<Rightarrow> world \<Rightarrow> world" where
  "call_success cb m3u8 w =
     (case cb of
        WatchSuccess r \<Rightarrow> act (Respond r 200 m3u8) w
      | PollerSuccess p \<Rightarrow> retry p (upd_poller p (\<lambda>q. q\<lparr>transcodeStarting := False\<rparr>) w))"

definition call_error :: "error_cb \<Rightarrow> world \<Rightarrow> world" where
  "call_error cb w =
     (case cb of
        WatchError r a ident \<Rightarrow>
          (let w1 = kill a False w;
               w2 = w1\<lparr>streams := delete_key ident (streams w1)\<rparr>
           in act (Respond r 500 []) w2)
      | PollerError p \<Rightarrow> poller_errorCallback p w)"

text \<open>
  The synchronous part of \<^verbatim>\<open>spawn\<close>: start the self-destructor, create the closure,
  call \<^verbatim>\<open>ffmpeg.ffprobe\<close>.
\<close>

definition spawn :: "nat \<Rightarrow> success_cb \<Rightarrow> error_cb \<Rightarrow> world \<Rightarrow> world" where
  "spawn a success error w =
     (let w1 = startSelfDestructor a w;
          c = length (closures w1);
          w2 = w1\<lparr>closures := closures w1 @
                 [\<lparr>this = a, initialCallbackSent = False, successCallback = success,
                   errorCallback = error, placeholderM3U8 = [], probing = True,
                   running = False\<rparr>]\<rparr>
      in act (Ffprobe c (streamUrl (heap w2 ! a))) w2)"

text \<open>
  The callback of \<^verbatim>\<open>ffmpeg.ffprobe\<close>, for a failed probe and for a probe that reports the
  duration \<open>d\<close>.  The command that is run is recorded with the \<open>seekToSegment\<close> that its
  options were built from.
\<close>

datatype probe_result = ProbeErr | ProbeOk rat

definition probe_callback :: "nat \<Rightarrow> probe_result \<Rightarrow> world \<Rightarrow> result" where
  "probe_callback c r w =
     (let a = this (closures w ! c);
          w0 = upd_closure c (\<lambda>k. k\<lparr>probing := False\<rparr>) w
      in case r of
           ProbeErr \<Rightarrow>
             (let w1 = upd_closure c (\<lambda>k. k\<lparr>initialCallbackSent := True\<rparr>) w0
              in Inr (call_error (errorCallback (closures w1 ! c)) (act (CallError c) w1)))
         | ProbeOk d \<Rightarrow>
             (case generateM3U8 d (streamIdentifier (heap w0 ! a)) (files w0) of
                Inl e \<Rightarrow> Inl (e, w0)
              | Inr (m3u8, fs) \<Rightarrow>
                  (let w1 = upd_closure c (\<lambda>k. k\<lparr>placeholderM3U8 := m3u8, running := True\<rparr>)
                              (w0\<lparr>files := fs\<rparr>);
                       w2 = upd_stream a (\<lambda>s. s\<lparr>process := Some c\<rparr>) w1;
                       w3 = act (FfmpegRun c (seekToSegment (heap w2 ! a))) w2
                   in Inr (upd_stream a (\<lambda>s. s\<lparr>lastActivity := now w3\<rparr>) w3))))"

definition on_error :: "nat \<Rightarrow> world \<Rightarrow> world" where
  "on_error c w =
     (if \<not> initialCallbackSent (closures w ! c)
      then (let w1 = upd_closure c (\<lambda>k. k\<lparr>initialCallbackSent := True\<rparr>) w
            in call_error (errorCallback (closures w1 ! c)) (act (CallError c) w1))
      else upd_stream (this (closures w ! c)) (\<lambda>s. s\<lparr>process := None\<rparr>) w)"

definition on_start :: "nat \<Rightarrow> world \<Rightarrow> world" where
  "on_start c w =
     (if \<not> initialCallbackSent (closures w ! c)
      then (let w1 = upd_closure c (\<lambda>k. k\<lparr>initialCallbackSent := True\<rparr>) w;
                m3u8 = placeholderM3U8 (closures w1 ! c)
            in call_success (successCallback (closures w1 ! c)) m3u8 (act (CallSuccess c m3u8) w1))
      else w)"

definition on_end :: "nat \<Rightarrow> world \<Rightarrow> world" where
  "on_end c w = kill (this (closures w ! c)) False w"

section \<open>\<^verbatim>\<open>StreamSegmentPoller\<close>\<close>

definition shouldStartTranscode :: "poller \<Rightarrow> world \<Rightarrow> bool" where
  "shouldStartTranscode q w =
     (case streamObject q of
        None \<Rightarrow> True
      | Some a \<Rightarrow>
          if transcodeStarting q then False
          else if process (heap w ! a) = None then True
          else if \<not> newTranscoderStarted q
          then gap_too_big (segmentIndex q) (currentTranscodingIndex (files w) (streamIdentifierP q))
          else False)"

definition poll :: "nat \<Rightarrow> world \<Rightarrow> result" where
  "poll p w =
     (let q = pollers w ! p
      in if maxTries q < of_int (currentTry q)
         then Inr (poller_errorCallback p (act (LogMaxTry p) w))
         else
           (let w0 = act (LogPolling p) w
            in if existsSync (files w0) (filename q) then Inr (poller_successCallback p w0)
               else if shouldStartTranscode q w0 \<and> \<not> newTranscoderStarted q
               then
                 (let w1 = upd_poller p
                             (\<lambda>q. q\<lparr>transcodeStarting := True, newTranscoderStarted := True\<rparr>) w0
                  in case streamObject q of
                       None \<Rightarrow> Inl (TypeError, w1)
                     | Some a \<Rightarrow>
                         (let w2 = (case process (heap w1 ! a) of
                                      None \<Rightarrow> w1
                                    | Some c \<Rightarrow>
                                        upd_stream a
                                          (\<lambda>s. s\<lparr>selfDestructTimer := None,
                                                  seekToSegment := segmentIndex q\<rparr>)
                                          (act (ProcessKill c) w1))
                          in Inr (spawn a (PollerSuccess p) (PollerError p) w2)))
               else Inr (retry p w0)))"

text \<open>
  The constructor.  \<open>file\<close> is \<^verbatim>\<open>query.file\<close>, \<open>None\<close> when the query has no such
  parameter: then \<^verbatim>\<open>this.filename.substring\<close> throws.
\<close>

definition new_poller :: "nat \<Rightarrow> string option \<Rightarrow> world \<Rightarrow> result" where
  "new_poller r file w =
     (case file of
        None \<Rightarrow> Inl (TypeError, w)
      | Some name \<Rightarrow>
          (let ident = take 8 name;
               obj = map_of (streams w) ident;
               p = length (pollers w);
               w1 = w\<lparr>pollers := pollers w @
                      [\<lparr>filename = name, streamIdentifierP = ident,
                        segmentIndex = index_of_name name, streamObject = obj,
                        maxTries = (if hlsSegmentDuration * 2 < 10 then 10 else hlsSegmentDuration * 2),
                        currentTry = 0, transcodeStarting = False, newTranscoderStarted = False,
                        res = r, timeouts = 0\<rparr>]\<rparr>;
               w2 = (case obj of
                       None \<Rightarrow> w1
                     | Some a \<Rightarrow> upd_stream a (\<lambda>s. s\<lparr>lastActivity := now w1\<rparr>) w1)
           in poll p w2))"

section \<open>The request handler and the event loop\<close>

record request =
  req_method :: string
  uri :: string
  query_url :: "string option"
  query_file :: "string option"

text \<open>
  The first two lines of the handler, \<^verbatim>\<open>url.parse(req.url).pathname\<close> and
  \<^verbatim>\<open>url.parse(req.url, true).query\<close>, of which the handler reads \<^verbatim>\<open>query.url\<close> and
  \<^verbatim>\<open>query.file\<close>.  The path name is the target up to the first \<^verbatim>\<open>?\<close>.  \<^verbatim>\<open>querystring.parse\<close>
  splits what follows at every \<^verbatim>\<open>&\<close>, skips the empty pieces, splits a piece at its first
  \<^verbatim>\<open>=\<close> and reads a \<^verbatim>\<open>+\<close> as a space.

  \<open>url_covered\<close> says which request targets the model covers: a target that starts with one
  \<^verbatim>\<open>/\<close>, of printable characters of ASCII without \<^verbatim>\<open>#\<close>, \<^verbatim>\<open>@\<close>, \<^verbatim>\<open>%\<close> and the backslash (no
  fragment, no percent escape), with at most 1000 pieces (\<^verbatim>\<open>maxKeys\<close>) and with the keys
  \<^verbatim>\<open>url\<close> and \<^verbatim>\<open>file\<close> at most once each (a key given twice makes an array).  For any
  other target \<open>parse_request\<close> is \<open>None\<close>.
\<close>

fun split_on :: "char \<Rightarrow> string \<Rightarrow> string list" where
  "split_on s [] = [[]]"
| "split_on s (c # cs) =
     (if c = s then [] # split_on s cs
      else (case split_on s cs of [] \<Rightarrow> [[c]] | p # ps \<Rightarrow> (c # p) # ps))"

definition plus_to_space :: "char \<Rightarrow> char" where
  "plus_to_space c = (if c = CHR ''+'' then CHR '' '' else c)"

definition qs_pair :: "string \<Rightarrow> string \<times> string" where
  "qs_pair piece =
     (map plus_to_space (takeWhile (\<lambda>c. c \<noteq> CHR ''='') piece),
      map plus_to_space (drop 1 (dropWhile (\<lambda>c. c \<noteq> CHR ''='') piece)))"

definition qs_parse :: "string \<Rightarrow> (string \<times> string) list" where
  "qs_parse qs = map qs_pair (filter (\<lambda>piece. piece \<noteq> []) (split_on CHR ''&'' qs))"

definition search_of :: "string \<Rightarrow> string" where
  "search_of target = drop 1 (dropWhile (\<lambda>c. c \<noteq> CHR ''?'') target)"

definition url_char :: "char \<Rightarrow> bool" where
  "url_char c =
     (32 < (of_char c :: nat) \<and> (of_char c :: nat) < 127 \<and>
      c \<noteq> CHR ''#'' \<and> c \<noteq> CHR ''@'' \<and> c \<noteq> CHR ''%'' \<and> c \<noteq> CHR 0x5C)"

definition url_covered :: "string \<Rightarrow> bool" where
  "url_covered target =
     (take 1 target = ''/'' \<and> take 2 target \<noteq> ''//'' \<and> list_all url_char target \<and>
      length (split_on CHR ''&'' (search_of target)) \<le> 1000 \<and>
      length (filter (\<lambda>kv. fst kv = ''url'') (qs_parse (search_of target))) \<le> 1 \<and>
      length (filter (\<lambda>kv. fst kv = ''file'') (qs_parse (search_of target))) \<le> 1)"

definition parse_request :: "string \<Rightarrow> string \<Rightarrow> request option" where
  "parse_request m target =
     (if url_covered target
      then Some \<lparr>req_method = m, uri = takeWhile (\<lambda>c. c \<noteq> CHR ''?'') target,
                  query_url = map_of (qs_parse (search_of target)) ''url'',
                  query_file = map_of (qs_parse (search_of target)) ''file''\<rparr>
      else None)"

text \<open>
  The handler of \<^verbatim>\<open>http.createServer\<close>, on the parsed request; \<open>fresh\<close> is what
  \<^verbatim>\<open>uniqueFilename('')\<close> returns when it is called.
\<close>

definition handle_request :: "request \<Rightarrow> string \<Rightarrow> world \<Rightarrow> result" where
  "handle_request req fresh w =
     (let r = requests w;
          w0 = w\<lparr>requests := Suc r\<rparr>
      in if req_method req = ''OPTIONS'' then Inr (act (Respond r 200 []) w0)
         else if uri req = ''/watch.m3u8'' then
           (case query_url req of
              None \<Rightarrow> Inr (act (Respond r 500 []) w0)
            | Some streamUrl' \<Rightarrow>
                if streamUrl' = [] then Inr (act (Respond r 500 []) w0)
                else if length (streams w0) < maxProcess then
                  (let a = length (heap w0);
                       w1 = w0\<lparr>heap := heap w0 @
                              [new_Stream streamUrl' fresh (Num 0) (DeleteStream fresh) (now w0)],
                            streams := (fresh, a) # delete_key fresh (streams w0)\<rparr>
                   in Inr (spawn a (WatchSuccess r) (WatchError r a fresh) w1))
                else Inr (act (Respond r 500 []) w0))
         else if uri req = ''/segment.ts'' then new_poller r (query_file req) w0
         else Inr w0)"

text \<open>
  The events of the Node event loop.  An event that cannot happen in a state (the
  callback of a probe that is not pending, an event of a command that was not run, a
  timer that is not set, an unlink that is not pending) leaves the state as it is.
  \<open>FileWritten\<close> is the transcoder writing into the transcode directory.  \<open>UnlinkDone name ok\<close>
  is the completion of a pending \<^verbatim>\<open>fs.unlink\<close> of \<open>name\<close>: it removes the file if the file is
  there and \<open>ok\<close>, which stands for the answer of the operating system; otherwise the
  callback logs the error.
\<close>

datatype event =
    Request request string
  | ProbeDone nat probe_result
  | ProcError nat
  | ProcStart nat
  | ProcEnd nat
  | IntervalTick nat
  | TimeoutFires nat
  | TimePasses nat
  | FileWritten string string
  | UnlinkDone string bool

definition step :: "event \<Rightarrow> world \<Rightarrow> result" where
  "step e w =
     (case e of
        Request req fresh \<Rightarrow> handle_request req fresh w
      | ProbeDone c r \<Rightarrow>
          if c < length (closures w) \<and> probing (closures w ! c) then probe_callback c r w else Inr w
      | ProcError c \<Rightarrow>
          if c < length (closures w) \<and> running (closures w ! c) then Inr (on_error c w) else Inr w
      | ProcStart c \<Rightarrow>
          if c < length (closures w) \<and> running (closures w ! c) then Inr (on_start c w) else Inr w
      | ProcEnd c \<Rightarrow>
          if c < length (closures w) \<and> running (closures w ! c) then Inr (on_end c w) else Inr w
      | IntervalTick a \<Rightarrow>
          if a < length (heap w) \<and> selfDestructTimer (heap w ! a) \<noteq> None
          then Inr (checkDestruct a w) else Inr w
      | TimeoutFires p \<Rightarrow>
          if p < length (pollers w) \<and> 0 < timeouts (pollers w ! p)
          then poll p (upd_poller p (\<lambda>q. q\<lparr>timeouts := timeouts q - 1\<rparr>) w) else Inr w
      | TimePasses ms \<Rightarrow> Inr (w\<lparr>now := now w + int ms\<rparr>)
      | FileWritten name content \<Rightarrow> Inr (w\<lparr>files := write_file name content (files w)\<rparr>)
      | UnlinkDone name ok \<Rightarrow>
          if name \<in> set (unlinks w) then
            (let w1 = w\<lparr>unlinks := remove1 name (unlinks w)\<rparr>
             in if ok \<and> existsSync (files w1) name
                then Inr (w1\<lparr>files := unlink_file name (files w1)\<rparr>)
                else Inr (act (LogUnlinkError name) w1))
          else Inr w)"

text \<open>A run of the event loop stops at the first uncaught exception.\<close>

fun run :: "event list \<Rightarrow> world \<Rightarrow> result" where
  "run [] w = Inr w"
| "run (e # es) w = (case step e w of Inl f \<Rightarrow> Inl f | Inr w' \<Rightarrow> run es w')"

text \<open>The calls of \<^verbatim>\<open>spawn\<close> that poller \<open>p\<close> has made, and the callbacks that closure \<open>c\<close> has called.\<close>

definition spawn_calls :: "nat \<Rightarrow> world \<Rightarrow> nat" where
  "spawn_calls p w = length (filter (\<lambda>k. successCallback k = PollerSuccess p) (closures w))"

definition is_callback_of :: "nat \<Rightarrow> action \<Rightarrow> bool" where
  "is_callback_of c x = (case x of CallSuccess c' m \<Rightarrow> c' = c | CallError c' \<Rightarrow> c' = c | _ \<Rightarrow> False)"

definition callbacks_of :: "nat \<Rightarrow> world \<Rightarrow> action list" where
  "callbacks_of c w = filter (is_callback_of c) (trace w)"

definition is_run_of :: "nat \<Rightarrow> action \<Rightarrow> bool" where
  "is_run_of c x = (case x of FfmpegRun c' s \<Rightarrow> c' = c | _ \<Rightarrow> False)"

definition runs_of :: "nat \<Rightarrow> world \<Rightarrow> action list" where
  "runs_of c w = filter (is_run_of c) (trace w)"

definition finish_calls :: "nat \<Rightarrow> world \<Rightarrow> nat" where
  "finish_calls a w = length (filter (\<lambda>x. x = Finish a) (trace w))"

section \<open>Notions used in the statements\<close>

text \<open>The key that the \<open>finishCallback\<close> of a stream deletes from the registry.\<close>

definition finish_ident :: "stream \<Rightarrow> string" where
  "finish_ident s = (case finishCallback s of DeleteStream ident \<Rightarrow> ident)"

text \<open>Several calls of \<^verbatim>\<open>kill\<close> on one stream, with the given arguments, in order.\<close>

definition kills :: "nat \<Rightarrow> bool list \<Rightarrow> world \<Rightarrow> world" where
  "kills a bs w = foldl (\<lambda>w b. kill a b w) w bs"

text \<open>Two states with the same streams, registry and files, and the same files to unlink.\<close>

definition same_state :: "world \<Rightarrow> world \<Rightarrow> bool" where
  "same_state w w' = (heap w = heap w' \<and> streams w = streams w' \<and> files w = files w' \<and>
     set (unlinks w) = set (unlinks w'))"

text \<open>
  The characters of a portable file name: the letters and digits of ASCII, the hyphen, the
  underscore and the dot.
\<close>

definition filename_safe :: "char \<Rightarrow> bool" where
  "filename_safe c =
     ((48 \<le> (of_char c :: nat) \<and> (of_char c :: nat) \<le> 57) \<or>
      (65 \<le> (of_char c :: nat) \<and> (of_char c :: nat) \<le> 90) \<or>
      (97 \<le> (of_char c :: nat) \<and> (of_char c :: nat) \<le> 122) \<or>
      c = CHR ''-'' \<or> c = CHR ''_'' \<or> c = CHR ''.'')"

text \<open>The number that \<^verbatim>\<open>toFixed(4)\<close> prints.\<close>

definition fixed4 :: "rat \<Rightarrow> rat" where
  "fixed4 x = of_int (toFixed_n 4 x) / 10 ^ 4"

text \<open>The state a run ends in, and the exception that ended it.\<close>

definition state_of :: "result \<Rightarrow> world" where
  "state_of r = (case r of Inl (f, w) \<Rightarrow> w | Inr w \<Rightarrow> w)"

definition failure_of :: "result \<Rightarrow> failure option" where
  "failure_of r = (case r of Inl (f, w) \<Rightarrow> Some f | Inr w \<Rightarrow> None)"

text \<open>The server after start-up, and the requests used in the examples.\<close>

definition init :: world where
  "init = \<lparr>streams = [], heap = [], closures = [], pollers = [], files = [], unlinks = [],
            now = 0, requests = 0, trace = []\<rparr>"

definition watch_req :: request where
  "watch_req = \<lparr>req_method = ''GET'', uri = ''/watch.m3u8'', query_url = Some ''rtsp://cam'',
                 query_file = None\<rparr>"

definition segment_req :: "string option \<Rightarrow> request" where
  "segment_req file = \<lparr>req_method = ''GET'', uri = ''/segment.ts'', query_url = None,
                        query_file = file\<rparr>"

text \<open>
  The server while it plays a stream of 60 seconds: \<^verbatim>\<open>/watch.m3u8\<close> was requested, the
  probe reported the duration, the transcoder started.
\<close>

definition playing :: world where
  "playing = state_of (run [Request watch_req ''abcdefgh'', ProbeDone 0 (ProbeOk 60), ProcStart 0] init)"

text \<open>
  Notions for the invariants of the event loop.  \<open>cframe c w w'\<close>: closure \<open>c\<close>, its
  callbacks and its transcoder runs are the same in \<open>w'\<close> as in \<open>w\<close>.  \<open>hframe w w'\<close>: the
  streams of \<open>w\<close> are still there in \<open>w'\<close>, with their identifiers.  \<open>cinv c base w\<close>: the
  phases of closure \<open>c\<close>, which has called back at most once since its callbacks were
  \<open>base\<close>.  \<open>nts_of p w\<close>: the latch \<open>newTranscoderStarted\<close> of poller \<open>p\<close> is set.
\<close>

definition cframe :: "nat \<Rightarrow> world \<Rightarrow> world \<Rightarrow> bool" where
  "cframe c w w' = (closures w' ! c = closures w ! c \<and> c < length (closures w') \<and>
      callbacks_of c w' = callbacks_of c w \<and> runs_of c w' = runs_of c w)"

definition hframe :: "world \<Rightarrow> world \<Rightarrow> bool" where
  "hframe w w' = (length (heap w) \<le> length (heap w') \<and>
     (\<forall>a < length (heap w). streamIdentifier (heap w' ! a) = streamIdentifier (heap w ! a)))"

definition cinv :: "nat \<Rightarrow> action list \<Rightarrow> world \<Rightarrow> bool" where
  "cinv c base w = (c < length (closures w) \<and>
     (probing (closures w ! c) \<longrightarrow> \<not> running (closures w ! c) \<and> \<not> initialCallbackSent (closures w ! c)) \<and>
     (\<not> probing (closures w ! c) \<longrightarrow> running (closures w ! c) \<or> initialCallbackSent (closures w ! c)) \<and>
     (if initialCallbackSent (closures w ! c) then \<exists>x. callbacks_of c w = base @ [x]
      else callbacks_of c w = base))"

definition nts_of :: "nat \<Rightarrow> world \<Rightarrow> bool" where
  "nts_of p w = (p < length (pollers w) \<and> newTranscoderStarted (pollers w ! p))"

definition pframe :: "nat \<Rightarrow> world \<Rightarrow> world \<Rightarrow> bool" where
  "pframe p w w' = (nts_of p w' \<and> spawn_calls p w' = spawn_calls p w)"

text \<open>
  \<open>tframe a w w'\<close>: from \<open>w\<close> to \<open>w'\<close> the trace and the heap have only grown, and the ticker
  of stream \<open>a\<close>, if it was active, is still active unless \<^verbatim>\<open>kill\<close> ran on \<open>a\<close> in between.
\<close>

definition tframe :: "nat \<Rightarrow> world \<Rightarrow> world \<Rightarrow> bool" where
  "tframe a w w' = ((\<exists>xs. trace w' = trace w @ xs) \<and> length (heap w) \<le> length (heap w') \<and>
     (a < length (heap w) \<and> selfDestructTimer (heap w ! a) = Some 5000 \<longrightarrow>
        selfDestructTimer (heap w' ! a) = Some 5000 \<or> finish_calls a w < finish_calls a w'))"

text \<open>
  Three more states for the examples: one stream before its first \<^verbatim>\<open>spawn\<close>; the playing
  server when the transcoder has written the segments 0 to 2 and segment 10 is requested; the
  playing server after the transcoder wrote the segments 0 to 4 and then failed.
\<close>

definition one_stream :: world where
  "one_stream = init\<lparr>heap := [new_Stream ''rtsp://cam'' ''abcdefgh'' (Num 0) (DeleteStream ''abcdefgh'') 0],
                      streams := [(''abcdefgh'', 0)], requests := 1\<rparr>"

definition seek_world :: world where
  "seek_world = playing
     \<lparr>pollers := [\<lparr>filename = ''abcdefgh10.ts'', streamIdentifierP = ''abcdefgh'',
                    segmentIndex = Num 10, streamObject = Some 0, maxTries = 10, currentTry = 0,
                    transcodeStarting = False, newTranscoderStarted = False, res = 1,
                    timeouts = 0\<rparr>],
       files := [(''abcdefgh.m3u8'',
                  ''abcdefgh0.ts'' @ [CHR 0x0A] @ ''abcdefgh1.ts'' @ [CHR 0x0A] @ ''abcdefgh2.ts'' @ [CHR 0x0A]),
                 (''abcdefgh0.ts'', []), (''abcdefgh1.ts'', []), (''abcdefgh2.ts'', [])] @ files playing,
       requests := 2\<rparr>"

definition crashed :: world where
  "crashed = state_of (run [FileWritten ''abcdefgh0.ts'' [], FileWritten ''abcdefgh1.ts'' [],
      FileWritten ''abcdefgh2.ts'' [], FileWritten ''abcdefgh3.ts'' [], FileWritten ''abcdefgh4.ts'' [],
      ProcError 0] playing)"

section \<open>Doubles\<close>

lemma expo_bounds_ge1:
  assumes "1 \<le> x"
  shows "2 powi (expo x) \<le> x" "x < 2 powi (expo x + 1)"
proof -
  have fl: "0 < \<lfloor>x\<rfloor>" using assms by simp
  from bitlen_bounds[OF fl] have b1: "2 ^ nat (bitlen \<lfloor>x\<rfloor> - 1) \<le> \<lfloor>x\<rfloor>" and b2: "\<lfloor>x\<rfloor> < 2 ^ nat (bitlen \<lfloor>x\<rfloor>)" by auto
  have bl: "1 \<le> bitlen \<lfloor>x\<rfloor>" using fl by (simp add: bitlen_alt_def)
  have e: "expo x = bitlen \<lfloor>x\<rfloor> - 1" using assms by (simp add: expo_def)
  have "(2::rat) powi (expo x) = 2 ^ nat (bitlen \<lfloor>x\<rfloor> - 1)" using bl e by (simp add: power_int_def)
  also have "\<dots> = of_int (2 ^ nat (bitlen \<lfloor>x\<rfloor> - 1))" by simp
  also have "\<dots> \<le> of_int \<lfloor>x\<rfloor>" using b1 by (simp only: of_int_le_iff)
  also have "\<dots> \<le> x" by simp
  finally show "2 powi (expo x) \<le> x" .
  have "\<lfloor>x\<rfloor> + 1 \<le> 2 ^ nat (bitlen \<lfloor>x\<rfloor>)" using b2 by simp
  then have "(of_int (\<lfloor>x\<rfloor> + 1) :: rat) \<le> of_int (2 ^ nat (bitlen \<lfloor>x\<rfloor>))" by (simp only: of_int_le_iff)
  moreover have "x < of_int (\<lfloor>x\<rfloor> + 1)" by linarith
  ultimately have "x < of_int (2 ^ nat (bitlen \<lfloor>x\<rfloor>))" by linarith
  also have "\<dots> = 2 powi (expo x + 1)" using bl e by (simp add: power_int_def)
  finally show "x < 2 powi (expo x + 1)" .
qed

lemma expo_bounds_lt1:
  assumes "0 < x" "x < 1"
  shows "2 powi (expo x) \<le> x" "x < 2 powi (expo x + 1)"
proof -
  define y where "y = 1 / x"
  have y1: "1 < y" using assms by (simp add: y_def)
  define c where "c = \<lceil>y\<rceil> - 1"
  have c0: "0 < c" using y1 unfolding c_def by linarith
  have cy: "of_int c < y" "y \<le> of_int c + 1" unfolding c_def by linarith+
  from bitlen_bounds[OF c0] have b1: "2 ^ nat (bitlen c - 1) \<le> c" and b2: "c < 2 ^ nat (bitlen c)" by auto
  have bl: "1 \<le> bitlen c" using c0 by (simp add: bitlen_alt_def)
  have e: "expo x = - bitlen c" using assms by (simp add: expo_def c_def y_def)
  have "c + 1 \<le> 2 ^ nat (bitlen c)" using b2 by simp
  then have "(of_int c :: rat) + 1 \<le> 2 ^ nat (bitlen c)"
    using of_int_le_iff[of "c + 1" "2 ^ nat (bitlen c)", where ?'a = rat] by simp
  then have yle: "y \<le> 2 ^ nat (bitlen c)" using cy by linarith
  have "(2::rat) ^ nat (bitlen c - 1) \<le> of_int c"
    using b1 of_int_le_iff[of "2 ^ nat (bitlen c - 1)" c, where ?'a = rat] by simp
  then have ygt: "2 ^ nat (bitlen c - 1) < y" using cy by linarith
  have xy: "x = 1 / y" using assms by (simp add: y_def)
  have "(2::rat) powi (expo x) = 1 / 2 ^ nat (bitlen c)" using bl e by (simp add: power_int_def field_simps)
  also have "\<dots> \<le> 1 / y" using yle y1 by (simp add: frac_le)
  finally show "2 powi (expo x) \<le> x" using xy by simp
  have "x = 1 / y" by fact
  also have "\<dots> < 1 / 2 ^ nat (bitlen c - 1)" using ygt by (simp add: frac_less2)
  also have "\<dots> = 2 powi (expo x + 1)" using bl e by (simp add: power_int_def field_simps)
  finally show "x < 2 powi (expo x + 1)" .
qed

lemma expo_bounds:
  assumes "0 < x"
  shows "2 powi (expo x) \<le> x \<and> x < 2 powi (expo x + 1)"
  using expo_bounds_ge1[of x] expo_bounds_lt1[of x] assms by (cases "1 \<le> x") auto

lemma expo_mono:
  assumes "0 < x" "x \<le> y"
  shows "expo x \<le> expo y"
proof (rule ccontr)
  assume "\<not> expo x \<le> expo y"
  then have "expo y + 1 \<le> expo x" by simp
  then have "(2::rat) powi (expo y + 1) \<le> 2 powi (expo x)" by (simp add: power_int_increasing)
  moreover have "y < 2 powi (expo y + 1)" using expo_bounds[of y] assms by simp
  moreover have "2 powi (expo x) \<le> x" using expo_bounds[of x] assms by simp
  ultimately show False using assms by linarith
qed

lemma expo_le:
  assumes "0 < x" "x < 2 powi k"
  shows "expo x < k"
proof (rule ccontr)
  assume "\<not> expo x < k"
  then have "(2::rat) powi k \<le> 2 powi (expo x)" by (simp add: power_int_increasing)
  then show False using expo_bounds[of x] assms by linarith
qed

lemma expo_ge:
  assumes "2 powi k \<le> x"
  shows "k \<le> expo x"
proof (rule ccontr)
  have x0: "0 < x" using assms zero_less_power_int[of "2::rat" k] by linarith
  assume "\<not> k \<le> expo x"
  then have "(2::rat) powi (expo x + 1) \<le> 2 powi k" by (simp add: power_int_increasing)
  then show False using expo_bounds[of x] x0 assms by linarith
qed

lemma round_half_even_of_int [simp]: "round_half_even (of_int n) = n"
  by (simp add: round_half_even_def)

lemma is_double_round:
  assumes "is_double x"
  shows "round_double x = x"
proof -
  have pos: "round_double y = y" if y0: "0 < y" and yi: "of_int \<lfloor>y / ulp y\<rfloor> = y / ulp y" for y
  proof -
    have u: "ulp y \<noteq> 0" by (simp add: ulp_def)
    obtain n where n: "y / ulp y = of_int n" using yi by metis
    have "round_half_even (y / ulp y) = \<lfloor>y / ulp y\<rfloor>"
      unfolding n by simp
    then have "round_double y = of_int \<lfloor>y / ulp y\<rfloor> * ulp y"
      using y0 by (simp add: round_double_def)
    also have "\<dots> = y / ulp y * ulp y" by (simp only: yi)
    also have "\<dots> = y" using u by simp
    finally show ?thesis .
  qed
  show ?thesis
  proof (cases "x = 0")
    case True then show ?thesis by (simp add: round_double_def)
  next
    case False
    show ?thesis
    proof (cases "0 < x")
      case True
      then show ?thesis using assms pos[of x] by (simp add: is_double_def)
    next
      case neg: False
      then have nx: "0 < - x" using False by simp
      have "round_double (- x) = - x" using assms pos[OF nx] False neg by (simp add: is_double_def)
      moreover have "round_double x = - round_double (- x)" using nx False neg by (simp add: round_double_def)
      ultimately show ?thesis by simp
    qed
  qed
qed

lemma grid_is_double:
  assumes x0: "0 < x" and xk: "x = of_int k * 2 powi g" and g: "- 1074 \<le> g"
    and ub: "x < 2 powi (g + 53)" and g2: "g \<le> 971"
  shows "is_double x"
proof -
  define u where "u = max (expo x - 52) (- 1074)"
  have "expo x < g + 53" using expo_le[OF x0 ub] .
  then have ug: "u \<le> g" using g by (simp add: u_def)
  have ulp: "ulp x = 2 powi u" by (simp add: ulp_def u_def)
  have "x / ulp x = x / 2 powi u" by (simp only: ulp)
  also have "\<dots> = of_int k * (2 powi g / 2 powi u)" using xk by simp
  also have "(2::rat) powi g / 2 powi u = 2 powi (g - u)" by (simp add: power_int_diff)
  also have "\<dots> = 2 ^ nat (g - u)" using ug by (simp add: power_int_def)
  finally have q: "x / ulp x = of_int (k * 2 ^ nat (g - u))" by simp
  have fl: "of_int \<lfloor>x / ulp x\<rfloor> = x / ulp x" unfolding q by simp
  have "(2::rat) powi (g + 53) \<le> 2 powi 1024" using g2 by (intro power_int_increasing) auto
  then have "x < 2 ^ 1024" using ub by simp
  then show ?thesis using x0 fl by (simp add: is_double_def)
qed

lemma is_double_grid:
  assumes "is_double x" "0 < x"
  shows "\<exists>m. x = of_int m * ulp x"
proof -
  have u: "ulp x \<noteq> 0" by (simp add: ulp_def)
  have "of_int \<lfloor>x / ulp x\<rfloor> = x / ulp x" using assms by (simp add: is_double_def)
  then have "of_int \<lfloor>x / ulp x\<rfloor> * ulp x = x / ulp x * ulp x" by (simp only:)
  then have "x = of_int \<lfloor>x / ulp x\<rfloor> * ulp x" using u by simp
  then show ?thesis ..
qed

lemma sub_segment_exact:
  assumes dd: "is_double d" and d5: "5 \<le> d" and ub: "d < 2 ^ 53"
  shows "is_double (d - 5)"
proof (cases "d = 5")
  case True
  then show ?thesis by (simp add: is_double_def)
next
  case False
  then have x0: "0 < d - 5" using d5 by simp
  have d0: "0 < d" using d5 by simp
  define u where "u = expo d - 52"
  have "(2::rat) powi 2 \<le> d" using d5 by simp
  then have e2: "2 \<le> expo d" by (rule expo_ge)
  have "d < 2 powi 53" using ub by simp
  then have e53: "expo d < 53" by (rule expo_le[OF d0])
  have ulp: "ulp d = 2 powi u" using e2 by (simp add: ulp_def u_def)
  obtain m where m: "d = of_int m * 2 powi u" using is_double_grid[OF dd d0] ulp by auto
  have u0: "u \<le> 0" "- 50 \<le> u" using e2 e53 by (simp_all add: u_def)
  have "(2::rat) ^ nat (- u) * 2 powi u = 2 powi (- u) * 2 powi u" using u0 by (simp add: power_int_def)
  also have "\<dots> = 1" by (simp add: power_int_minus)
  finally have one: "(2::rat) ^ nat (- u) * 2 powi u = 1" .
  have "d - 5 = of_int m * 2 powi u - 5 * (2 ^ nat (- u) * 2 powi u)" using m one by simp
  also have "\<dots> = of_int (m - 5 * 2 ^ nat (- u)) * 2 powi u" by (simp add: algebra_simps)
  finally have xk: "d - 5 = of_int (m - 5 * 2 ^ nat (- u)) * 2 powi u" .
  have "d < 2 powi (expo d + 1)" using expo_bounds[OF d0] by simp
  moreover have "expo d + 1 = u + 53" by (simp add: u_def)
  ultimately have "d - 5 < 2 powi (u + 53)" by simp
  from grid_is_double[OF x0 xk _ this] u0 show ?thesis by simp
qed

lemma is_double_of_nat:
  assumes "n \<le> 2 ^ 53"
  shows "is_double (of_nat n)"
proof (cases "n = 0")
  case True then show ?thesis by (simp add: is_double_def)
next
  case False
  show ?thesis
  proof (cases "n = 2 ^ 53")
    case True
    have "is_double (2 ^ 53)" using grid_is_double[of "2 ^ 53" 1 53] by simp
    then show ?thesis using True by simp
  next
    case ne: False
    have x0: "(0::rat) < of_nat n" using False by simp
    have xk: "(of_nat n :: rat) = of_int (int n) * 2 powi 0" by simp
    have "n < 2 ^ 53" using assms ne by simp
    then have "(of_nat n :: rat) < of_nat (2 ^ 53)" by (simp only: of_nat_less_iff)
    then have ub: "(of_nat n :: rat) < 2 powi (0 + 53)" by simp
    show ?thesis by (rule grid_is_double[OF x0 xk _ ub]) simp_all
  qed
qed

section \<open>The manifest\<close>

lemma num_sub_self [simp]: "num_sub a a = 0"
  by (simp add: num_sub_def round_double_def)

lemma num_sub_segment:
  assumes "is_double d" "5 \<le> d" "d < 2 ^ 53"
  shows "num_sub d 5 = d - 5"
  using is_double_round[OF sub_segment_exact[OF assms]] by (simp add: num_sub_def)

lemma num_add_one:
  assumes "Suc i \<le> 2 ^ 53"
  shows "num_add (of_nat i) 1 = of_nat (Suc i)"
proof -
  have "is_double (of_nat (Suc i))" using assms by (rule is_double_of_nat)
  from is_double_round[OF this] show ?thesis by (simp add: num_add_def add.commute)
qed

lemma num_to_string_of_nat [simp]: "num_to_string (of_nat k) = show_nat k"
  by (simp add: num_to_string_def)

lemma segment_count_pos:
  assumes "0 < r"
  shows "0 < segment_count r"
proof -
  have "0 < r / 5" using assms by simp
  then have "0 < \<lceil>r / 5\<rceil>" by simp
  then show ?thesis by (simp add: segment_count_def hlsSegmentDuration_def)
qed

lemma segment_count_step:
  assumes "5 \<le> r"
  shows "segment_count r = Suc (segment_count (r - 5))"
proof -
  have "r / 5 = (r - 5) / 5 + 1" by (simp add: diff_divide_distrib)
  then have "\<lceil>r / 5\<rceil> = \<lceil>(r - 5) / 5\<rceil> + 1" by (simp only: ceiling_add_one)
  moreover have "0 \<le> \<lceil>(r - 5) / 5\<rceil>" using assms by simp
  ultimately have "nat \<lceil>r / 5\<rceil> = Suc (nat \<lceil>(r - 5) / 5\<rceil>)" by linarith
  then show ?thesis by (simp only: segment_count_def hlsSegmentDuration_def)
qed

lemma segment_count_short:
  assumes "0 < r" "r < 5"
  shows "segment_count r = 1"
proof -
  have "\<lceil>r / 5\<rceil> = 1" using assms by (intro ceiling_unique) auto
  then show ?thesis by (simp add: segment_count_def hlsSegmentDuration_def)
qed

lemma segment_length_step:
  "segment_length r (Suc k) = segment_length (r - 5) k"
  by (simp add: segment_length_def hlsSegmentDuration_def algebra_simps)

lemma m3u8_loop_exact:
  assumes "is_double r" "0 \<le> r" "r < 2 ^ 53" "i + segment_count r \<le> 2 ^ 53"
    and "length c \<le> max_string_length"
  shows "m3u8_loop fn r (of_nat i) c =
    (if length (c @ concat (map (\<lambda>k. extinf_entry fn (segment_length r k) (i + k)) [0..<segment_count r]))
          \<le> max_string_length
     then Inr (c @ concat (map (\<lambda>k. extinf_entry fn (segment_length r k) (i + k)) [0..<segment_count r]))
     else Inl RangeError)"
  using assms
proof (induction n \<equiv> "segment_count r" arbitrary: r i c)
  case 0
  then have "r = 0" using segment_count_pos[of r] by (cases "0 < r") auto
  then show ?case using "0.prems"(5) by (subst m3u8_loop.simps) (simp add: segment_count_def)
next
  case (Suc n)
  have r0: "0 < r" using Suc.hyps(2) Suc.prems(2) by (cases "r = 0") (auto simp: segment_count_def)
  have idx: "num_add (of_nat i) 1 = of_nat (Suc i)"
    using Suc.prems(4) Suc.hyps(2)[symmetric] by (intro num_add_one) simp
  show ?case
  proof (cases "5 \<le> r")
    case True
    have sub: "num_sub r 5 = r - 5" using Suc.prems True by (intro num_sub_segment)
    have dd: "is_double (r - 5)" using Suc.prems True by (intro sub_segment_exact)
    have cnt: "segment_count r = Suc (segment_count (r - 5))" using True by (rule segment_count_step)
    then have n: "n = segment_count (r - 5)" using Suc.hyps(2) by simp
    have ih: "m3u8_loop fn (r - 5) (of_nat (Suc i)) c' =
      (if length (c' @ concat (map (\<lambda>k. extinf_entry fn (segment_length (r - 5) k) (Suc i + k)) [0..<segment_count (r - 5)]))
            \<le> max_string_length
       then Inr (c' @ concat (map (\<lambda>k. extinf_entry fn (segment_length (r - 5) k) (Suc i + k)) [0..<segment_count (r - 5)]))
       else Inl RangeError)" if "length c' \<le> max_string_length" for c'
      using Suc.hyps(1)[OF n dd, of "Suc i" c'] True Suc.prems cnt that by (simp del: of_nat_Suc)
    have len0: "segment_length r 0 = 5" using True by (simp add: segment_length_def hlsSegmentDuration_def)
    have lst: "[0..<segment_count r] = 0 # map Suc [0..<segment_count (r - 5)]"
      unfolding cnt by (simp add: upt_conv_Cons map_Suc_upt del: upt_Suc)
    show ?thesis
      apply (subst m3u8_loop.simps)
      apply (auto simp add: r0 True hlsSegmentDuration_def Let_def sub idx ih lst len0 o_def
          segment_length_step extinf_entry_def segment_uri_def simp del: upt_Suc of_nat_Suc)
      done
  next
    case False
    then have lt: "r < 5" by simp
    have cnt: "segment_count r = 1" using r0 lt by (rule segment_count_short)
    have len0: "segment_length r 0 = r" using lt by (simp add: segment_length_def hlsSegmentDuration_def)
    have nxt: "m3u8_loop fn 0 x c' = Inr c'" for x c' by (subst m3u8_loop.simps) simp
    show ?thesis
      apply (subst m3u8_loop.simps)
      apply (auto simp add: r0 lt False hlsSegmentDuration_def Let_def nxt cnt len0
          extinf_entry_def segment_uri_def simp del: of_nat_Suc)
      done
  qed
qed

lemma segment_count_less:
  assumes "r < 2 ^ 53"
  shows "segment_count r \<le> 2 ^ 53"
proof -
  have "r / 5 \<le> of_int (2 ^ 53)" using assms by simp
  then have "\<lceil>r / 5\<rceil> \<le> 2 ^ 53" by (simp only: ceiling_le_iff)
  then have "nat \<lceil>r / 5\<rceil> \<le> 2 ^ 53" by (simp add: nat_le_iff)
  then show ?thesis by (simp only: segment_count_def hlsSegmentDuration_def)
qed

lemma m3u8_header_length: "length m3u8_header = 104"
proof -
  have "show_nat 5 = ''5''" by (simp add: show_nat.simps digit_char_def)
  then show ?thesis
    by (simp add: m3u8_header_def num_to_string_def hlsSegmentDuration_def CRLF_def)
qed

lemma generateM3U8_exact:
  assumes "is_double d" "0 < d" "d < 2 ^ 53"
  shows "generateM3U8 d ident fs =
     (if max_string_length < length (spec_manifest d ident) then Inl RangeError
      else if valid_filename (ident @ ''_master.m3u8'')
      then Inr (spec_manifest d ident, write_file (ident @ ''_master.m3u8'') (spec_manifest d ident) fs)
      else Inl FsError)"
proof -
  let ?b = "m3u8_header @ concat (map (\<lambda>k. extinf_entry ident (segment_length d k) (0 + k)) [0..<segment_count d])"
  have h: "length m3u8_header \<le> max_string_length"
    by (simp add: m3u8_header_length max_string_length_def)
  have l: "m3u8_loop ident d (of_nat 0) m3u8_header =
    (if length ?b \<le> max_string_length then Inr ?b else Inl RangeError)"
    using assms segment_count_less[of d] h by (intro m3u8_loop_exact) auto
  have m: "spec_manifest d ident = ?b @ ''#EXT-X-ENDLIST''" by (simp add: spec_manifest_def)
  show ?thesis
    unfolding generateM3U8_def m using l by (auto simp: Let_def writeFileSync_def)
qed



lemma fixed4_segment [simp]: "fixed4 5 = 5"
proof -
  have "\<lfloor>(100001::rat) / 2\<rfloor> = 50000" by (intro floor_unique) auto
  then show ?thesis by (simp add: fixed4_def toFixed_n_def)
qed



lemma segment_length_full:
  assumes "Suc k < segment_count d"
  shows "segment_length d k = 5"
proof -
  define n where "n = segment_count d"
  have n0: "0 < n" using assms by (simp add: n_def)
  have c: "\<lceil>d / 5\<rceil> = int n" using n0 by (simp add: n_def segment_count_def hlsSegmentDuration_def)
  have "of_int \<lceil>d / 5\<rceil> - 1 < d / 5" by linarith
  then have b: "5 * (of_nat n - 1) < d" unfolding c by simp
  have "Suc k \<le> n - 1" using assms by (simp add: n_def)
  then have "(of_nat (Suc k) :: rat) \<le> of_nat (n - 1)" by (simp only: of_nat_le_iff)
  then have "(of_nat k :: rat) + 1 \<le> of_nat n - 1" using n0 by (simp add: of_nat_diff)
  then show ?thesis using b by (simp add: segment_length_def hlsSegmentDuration_def min_def algebra_simps)
qed

lemma extinf_entry_length:
  "length (extinf_entry ident len k) = 40 + length (toFixed 4 len) + length ident + length (show_nat k)"
  by (simp add: extinf_entry_def segment_uri_def CRLF_def)


lemma concat_length_le:
  assumes "\<And>k. k < n \<Longrightarrow> length (f k) \<le> c"
  shows "length (concat (map f [0..<n])) \<le> c * n"
  using assms
proof (induction n)
  case 0
  show ?case by simp
next
  case (Suc n)
  have "length (concat (map f [0..<n])) \<le> c * n" using Suc.prems by (intro Suc.IH) simp
  moreover have "length (f n) \<le> c" using Suc.prems by simp
  ultimately show ?case by simp
qed


lemma show_nat_length: "0 < m \<Longrightarrow> k < 10 ^ m \<Longrightarrow> length (show_nat k) \<le> m"
proof (induction m arbitrary: k)
  case 0
  then show ?case by simp
next
  case (Suc m)
  show ?case
  proof (cases "k < 10")
    case True
    then show ?thesis by (subst show_nat.simps) simp
  next
    case False
    then have m: "0 < m" using Suc.prems(2) by (cases m) auto
    have "k div 10 < 10 ^ m" using Suc.prems(2) by (simp add: less_mult_imp_div_less mult.commute)
    then have "length (show_nat (k div 10)) \<le> m" using m by (rule Suc.IH[rotated])
    then show ?thesis using False by (subst show_nat.simps) simp
  qed
qed

lemma toFixed4_length:
  assumes "0 \<le> x" "x \<le> 5"
  shows "length (toFixed 4 x) = 6"
proof -
  have "x * 10 ^ 4 + 1 / 2 < 50001" using assms(2) by simp
  then have "\<lfloor>x * 10 ^ 4 + 1 / 2\<rfloor> < 50001" by (simp only: floor_less_iff of_int_numeral)
  then have "toFixed_n 4 x < 50001" using assms(1) by (simp add: toFixed_n_def)
  then have "nat (toFixed_n 4 x) < 10 ^ 5" by simp
  then have "length (show_nat (nat (toFixed_n 4 x))) \<le> 5" by (intro show_nat_length) simp_all
  then show ?thesis using assms(1) by (simp add: toFixed_def Let_def)
qed

lemma segment_count_bound:
  assumes "d \<le> 10 ^ 7"
  shows "segment_count d \<le> 2000000"
proof -
  have "d / 5 \<le> of_int 2000000" using assms by simp
  then have "\<lceil>d / 5\<rceil> \<le> 2000000" by (simp only: ceiling_le_iff)
  then have "nat \<lceil>d / 5\<rceil> \<le> 2000000" by (simp add: nat_le_iff)
  then show ?thesis by (simp only: segment_count_def hlsSegmentDuration_def)
qed

lemma segment_length_range:
  assumes "k < segment_count d"
  shows "0 \<le> segment_length d k" "segment_length d k \<le> 5"
proof -
  have "int k < \<lceil>d / 5\<rceil>"
    using assms by (simp add: segment_count_def hlsSegmentDuration_def zless_nat_eq_int_zless)
  then have "of_int (int k) < d / 5" by (simp only: less_ceiling_iff)
  then have "of_nat k * 5 < d" by (simp add: field_simps)
  then show "0 \<le> segment_length d k"
    by (simp add: segment_length_def hlsSegmentDuration_def mult.commute)
  show "segment_length d k \<le> 5" by (simp add: segment_length_def hlsSegmentDuration_def)
qed

lemma spec_manifest_length_le:
  assumes "d \<le> 10 ^ 7" "length ident \<le> 64"
  shows "length (spec_manifest d ident) \<le> max_string_length"
proof -
  have n: "segment_count d \<le> 2000000" using assms(1) by (rule segment_count_bound)
  have e: "length (extinf_entry ident (segment_length d k) k) \<le> 117" if "k < segment_count d" for k
  proof -
    have "k < 10 ^ 7" using that n by simp
    then have "length (show_nat k) \<le> 7" by (intro show_nat_length) simp_all
    moreover have "length (toFixed 4 (segment_length d k)) = 6"
      using segment_length_range[OF that] by (rule toFixed4_length)
    ultimately show ?thesis using assms(2) by (simp add: extinf_entry_length)
  qed
  have "length (concat (map (\<lambda>k. extinf_entry ident (segment_length d k) k) [0..<segment_count d]))
      \<le> 117 * segment_count d"
    by (rule concat_length_le) (rule e)
  also have "\<dots> \<le> 117 * 2000000" using n by simp
  finally show ?thesis by (simp add: spec_manifest_def m3u8_header_length max_string_length_def)
qed





section \<open>Streams\<close>

lemmas prims = upd_stream_def upd_closure_def upd_poller_def act_def

lemma finish_cases: "\<exists>ident. finishCallback s = DeleteStream ident"
  by (cases "finishCallback s") auto

lemma process_None_upd:
  "process s = None \<Longrightarrow> s\<lparr>selfDestructTimer := t, process := None\<rparr> = s\<lparr>selfDestructTimer := t\<rparr>"
  by (cases s) simp

lemma kill_eq:
  "kill a r w =
     w\<lparr>heap := (heap w)[a := (heap w ! a)\<lparr>selfDestructTimer := None, process := None\<rparr>],
       streams := delete_key (finish_ident (heap w ! a)) (streams w),
       unlinks := (if r then unlinks w @
                     rev (map fst (filter (\<lambda>e. glob_prefix (streamIdentifier (heap w ! a)) (fst e)) (files w)))
                   else unlinks w),
       trace := trace w @ (case process (heap w ! a) of None \<Rightarrow> [] | Some c \<Rightarrow> [ProcessKill c]) @ [Finish a]\<rparr>"
proof (cases "a < length (heap w)")
  case True
  then show ?thesis
    by (cases "finishCallback (heap w ! a)"; cases "process (heap w ! a)")
       (simp_all add: kill_def prims call_finish_def removeFiles_def finish_ident_def Let_def process_None_upd)
next
  case False
  then have "length (heap w) \<le> a" by simp
  then show ?thesis
    by (cases "finishCallback (heap w ! a)"; cases "process (heap w ! a)")
       (simp_all add: kill_def prims call_finish_def removeFiles_def finish_ident_def Let_def list_update_beyond)
qed

lemma filter_filter_same: "filter P (filter P xs) = filter P xs"
  by (induction xs) auto

lemma delete_key_idem [simp]: "delete_key k (delete_key k xs) = delete_key k xs"
  by (simp add: delete_key_def)

lemma finish_calls_kill: "finish_calls a (kill a b w) = Suc (finish_calls a w)"
  by (simp add: kill_eq finish_calls_def split: option.splits)

lemma same_state_kill:
  "same_state w w' \<Longrightarrow> same_state (kill a b w) (kill a b w')"
  by (simp add: same_state_def kill_eq)

lemma kill_kill:
  assumes "a < length (heap w)"
  shows "same_state (kill a c (kill a b w)) (kill a (b \<or> c) w)"
  using assms by (auto simp: same_state_def kill_eq finish_ident_def)

lemma kills_kill:
  assumes "a < length (heap w)"
  shows "same_state (kills a bs (kill a b w)) (kill a (b \<or> True \<in> set bs) w)"
  using assms
proof (induction bs rule: rev_induct)
  case Nil
  then show ?case by (simp add: kills_def same_state_def)
next
  case (snoc c bs)
  have "kills a (bs @ [c]) (kill a b w) = kill a c (kills a bs (kill a b w))" by (simp add: kills_def)
  moreover have "same_state (kill a c (kills a bs (kill a b w))) (kill a c (kill a (b \<or> True \<in> set bs) w))"
    using snoc by (intro same_state_kill) simp
  moreover have "same_state (kill a c (kill a (b \<or> True \<in> set bs) w)) (kill a ((b \<or> True \<in> set bs) \<or> c) w)"
    using snoc.prems by (rule kill_kill)
  moreover have "((b \<or> True \<in> set bs) \<or> c) = (b \<or> True \<in> set (bs @ [c]))" by auto
  ultimately show ?case by (simp add: same_state_def)
qed

lemma finish_calls_kills: "finish_calls a (kills a bs w) = finish_calls a w + length bs"
  by (induction bs rule: rev_induct) (simp_all add: kills_def finish_calls_kill)

lemma spawn_heap:
  "heap (spawn a s e w) = heap (startSelfDestructor a w)"
  by (simp add: spawn_def prims Let_def)

lemma startSelfDestructor_timer:
  assumes "a < length (heap w)"
  shows "selfDestructTimer (heap (startSelfDestructor a w) ! a) =
          (case selfDestructTimer (heap w ! a) of None \<Rightarrow> Some 5000 | Some t \<Rightarrow> Some t)"
    and "process (heap (startSelfDestructor a w) ! a) = process (heap w ! a)"
  using assms by (auto simp: startSelfDestructor_def prims split: option.splits)

lemma probe_ok_stream:
  assumes "probe_callback c (ProbeOk d) w = Inr w'" "this (closures w ! c) = a" "a < length (heap w)"
  shows "process (heap w' ! a) = Some c"
    and "selfDestructTimer (heap w' ! a) = selfDestructTimer (heap w ! a)"
  using assms by (auto simp: probe_callback_def prims Let_def split: option.splits sum.splits)

lemma on_error_late:
  assumes "initialCallbackSent (closures w ! c)" "this (closures w ! c) = a" "a < length (heap w)"
  shows "process (heap (on_error c w) ! a) = None"
    and "selfDestructTimer (heap (on_error c w) ! a) = selfDestructTimer (heap w ! a)"
  using assms by (auto simp: on_error_def prims)

lemma kill_stream:
  assumes "a < length (heap w)"
  shows "process (heap (kill a r w) ! a) = None"
    and "selfDestructTimer (heap (kill a r w) ! a) = None"
  using assms by (simp_all add: kill_eq)

lemma checkDestruct_iff:
  "checkDestruct a w = (if 60000 < now w - lastActivity (heap w ! a) then kill a True w else w)"
proof -
  have "(60 < (of_int k :: rat) / 1000) = (60000 < k)" for k :: int
  proof -
    have "(60 < (of_int k :: rat) / 1000) = ((of_int 60000 :: rat) < of_int k)" by (simp add: field_simps)
    also have "\<dots> = (60000 < k)" by (simp only: of_int_less_iff)
    finally show ?thesis .
  qed
  then show ?thesis by (simp add: checkDestruct_def selfDestructDuration_def)
qed

lemma kill_true_clean:
  assumes "a < length (heap w)" "finishCallback (heap w ! a) = DeleteStream (streamIdentifier (heap w ! a))"
  shows "map_of (streams (kill a True w)) (streamIdentifier (heap w ! a)) = None"
    and "files (kill a True w) = files w"
    and "set (unlinks (kill a True w)) =
           set (unlinks w) \<union> {n \<in> fst ` set (files w). glob_prefix (streamIdentifier (heap w ! a)) n}"
  using assms by (auto simp: kill_eq finish_ident_def delete_key_def map_of_eq_None_iff)

section \<open>The closures of \<^verbatim>\<open>spawn\<close>\<close>

text \<open>Projections of the operations on the closures and on the callbacks of a closure.\<close>

lemma cb_act: "callbacks_of c (act x w) = callbacks_of c w @ (if is_callback_of c x then [x] else [])"
  by (simp add: callbacks_of_def act_def)

lemma runs_act: "runs_of c (act x w) = runs_of c w @ (if is_run_of c x then [x] else [])"
  by (simp add: runs_of_def act_def)

lemma cb_upd [simp]:
  "callbacks_of c (upd_stream a f w) = callbacks_of c w"
  "callbacks_of c (upd_closure k g w) = callbacks_of c w"
  "callbacks_of c (upd_poller p h w) = callbacks_of c w"
  "runs_of c (upd_stream a f w) = runs_of c w"
  "runs_of c (upd_closure k g w) = runs_of c w"
  "runs_of c (upd_poller p h w) = runs_of c w"
  by (simp_all add: callbacks_of_def runs_of_def prims)

lemma cb_fields [simp]:
  "callbacks_of c (w\<lparr>streams := ss\<rparr>) = callbacks_of c w"
  "callbacks_of c (w\<lparr>heap := hh\<rparr>) = callbacks_of c w"
  "callbacks_of c (w\<lparr>closures := cc\<rparr>) = callbacks_of c w"
  "callbacks_of c (w\<lparr>pollers := pp\<rparr>) = callbacks_of c w"
  "callbacks_of c (w\<lparr>files := ff\<rparr>) = callbacks_of c w"
  "callbacks_of c (w\<lparr>now := nn\<rparr>) = callbacks_of c w"
  "callbacks_of c (w\<lparr>requests := rr\<rparr>) = callbacks_of c w"
  "runs_of c (w\<lparr>streams := ss\<rparr>) = runs_of c w"
  "runs_of c (w\<lparr>heap := hh\<rparr>) = runs_of c w"
  "runs_of c (w\<lparr>closures := cc\<rparr>) = runs_of c w"
  "runs_of c (w\<lparr>pollers := pp\<rparr>) = runs_of c w"
  "runs_of c (w\<lparr>files := ff\<rparr>) = runs_of c w"
  "runs_of c (w\<lparr>now := nn\<rparr>) = runs_of c w"
  "runs_of c (w\<lparr>requests := rr\<rparr>) = runs_of c w"
  by (simp_all add: callbacks_of_def runs_of_def)

lemma is_cb_simps [simp]:
  "is_callback_of c (CallError c') = (c' = c)"
  "is_callback_of c (CallSuccess c' m) = (c' = c)"
  "\<not> is_callback_of c (Respond r st b)"
  "\<not> is_callback_of c (RespondFile r n)"
  "\<not> is_callback_of c (Ffprobe k u)"
  "\<not> is_callback_of c (FfmpegRun k sk)"
  "\<not> is_callback_of c (ProcessKill k)"
  "\<not> is_callback_of c (Finish a)"
  "\<not> is_callback_of c (LogPolling p)"
  "\<not> is_callback_of c (LogMaxTry p)"
  by (simp_all add: is_callback_of_def)

lemma is_run_simps [simp]:
  "is_run_of c (FfmpegRun c' sk) = (c' = c)"
  "\<not> is_run_of c (CallError k)"
  "\<not> is_run_of c (CallSuccess k m)"
  "\<not> is_run_of c (Respond r st b)"
  "\<not> is_run_of c (RespondFile r n)"
  "\<not> is_run_of c (Ffprobe k u)"
  "\<not> is_run_of c (ProcessKill k)"
  "\<not> is_run_of c (Finish a)"
  "\<not> is_run_of c (LogPolling p)"
  "\<not> is_run_of c (LogMaxTry p)"
  by (simp_all add: is_run_of_def)

lemma kill_proj [simp]:
  "closures (kill a r w) = closures w"
  "pollers (kill a r w) = pollers w"
  "callbacks_of c (kill a r w) = callbacks_of c w"
  "runs_of c (kill a r w) = runs_of c w"
  "length (heap (kill a r w)) = length (heap w)"
  by (simp_all add: kill_eq callbacks_of_def runs_of_def split: option.splits)

lemma checkDestruct_proj [simp]:
  "closures (checkDestruct a w) = closures w"
  "pollers (checkDestruct a w) = pollers w"
  "callbacks_of c (checkDestruct a w) = callbacks_of c w"
  "runs_of c (checkDestruct a w) = runs_of c w"
  "length (heap (checkDestruct a w)) = length (heap w)"
  by (simp_all add: checkDestruct_def)

lemma retry_proj [simp]:
  "closures (retry p w) = closures w"
  "callbacks_of c (retry p w) = callbacks_of c w"
  "runs_of c (retry p w) = runs_of c w"
  "heap (retry p w) = heap w"
  "length (pollers (retry p w)) = length (pollers w)"
  by (simp_all add: retry_def) (simp_all add: prims)

lemma poller_cb_proj [simp]:
  "closures (poller_errorCallback p w) = closures w"
  "callbacks_of c (poller_errorCallback p w) = callbacks_of c w"
  "runs_of c (poller_errorCallback p w) = runs_of c w"
  "heap (poller_errorCallback p w) = heap w"
  "pollers (poller_errorCallback p w) = pollers w"
  "closures (poller_successCallback p w) = closures w"
  "callbacks_of c (poller_successCallback p w) = callbacks_of c w"
  "runs_of c (poller_successCallback p w) = runs_of c w"
  "heap (poller_successCallback p w) = heap w"
  "pollers (poller_successCallback p w) = pollers w"
  by (simp_all add: poller_errorCallback_def poller_successCallback_def cb_act runs_act) (simp_all add: prims)

lemma call_success_proj [simp]:
  "closures (call_success cb m w) = closures w"
  "callbacks_of c (call_success cb m w) = callbacks_of c w"
  "runs_of c (call_success cb m w) = runs_of c w"
  "heap (call_success cb m w) = heap w"
  "length (pollers (call_success cb m w)) = length (pollers w)"
  by (cases cb; simp add: call_success_def cb_act runs_act; simp add: prims)+

lemma call_error_proj [simp]:
  "closures (call_error cb w) = closures w"
  "callbacks_of c (call_error cb w) = callbacks_of c w"
  "runs_of c (call_error cb w) = runs_of c w"
  "length (heap (call_error cb w)) = length (heap w)"
  "pollers (call_error cb w) = pollers w"
  by (cases cb; simp add: call_error_def cb_act runs_act Let_def; simp add: prims)+

lemma spawn_proj:
  "closures (spawn a s e w) = closures w @ [\<lparr>this = a, initialCallbackSent = False, successCallback = s,
       errorCallback = e, placeholderM3U8 = [], probing = True, running = False\<rparr>]"
  "callbacks_of c (spawn a s e w) = callbacks_of c w"
  "runs_of c (spawn a s e w) = runs_of c w"
  "length (heap (spawn a s e w)) = length (heap w)"
  "pollers (spawn a s e w) = pollers w"
  by (simp_all add: spawn_def startSelfDestructor_def Let_def cb_act runs_act) (simp_all add: prims)

lemma cframe_refl [simp]: "c < length (closures w) \<Longrightarrow> cframe c w w"
  by (simp add: cframe_def)

lemma prims_proj [simp]:
  "closures (upd_stream a f w) = closures w"
  "closures (upd_poller p h w) = closures w"
  "closures (act x w) = closures w"
  "closures (upd_closure k g w) = (closures w)[k := g (closures w ! k)]"
  "heap (upd_stream a f w) = (heap w)[a := f (heap w ! a)]"
  "heap (upd_poller p h w) = heap w"
  "heap (act x w) = heap w"
  "heap (upd_closure k g w) = heap w"
  "pollers (upd_stream a f w) = pollers w"
  "pollers (upd_poller p h w) = (pollers w)[p := h (pollers w ! p)]"
  "pollers (act x w) = pollers w"
  "pollers (upd_closure k g w) = pollers w"
  "streams (upd_stream a f w) = streams w"
  "streams (upd_poller p h w) = streams w"
  "streams (act x w) = streams w"
  "streams (upd_closure k g w) = streams w"
  "files (upd_stream a f w) = files w"
  "files (upd_poller p h w) = files w"
  "files (act x w) = files w"
  "files (upd_closure k g w) = files w"
  "now (upd_stream a f w) = now w"
  "now (upd_poller p h w) = now w"
  "now (act x w) = now w"
  "now (upd_closure k g w) = now w"
  "requests (upd_stream a f w) = requests w"
  "requests (upd_poller p h w) = requests w"
  "requests (act x w) = requests w"
  "requests (upd_closure k g w) = requests w"
  "trace (upd_stream a f w) = trace w"
  "trace (upd_poller p h w) = trace w"
  "trace (act x w) = trace w @ [x]"
  "trace (upd_closure k g w) = trace w"
  by (simp_all add: prims)

lemma poll_cframe:
  assumes "poll p w = Inr w'" "c < length (closures w)"
  shows "cframe c w w'"
  using assms
  by (auto simp: poll_def Let_def cframe_def spawn_proj cb_act runs_act nth_append
           split: if_splits option.splits)

lemma new_poller_cframe:
  assumes "new_poller r file w = Inr w'" "c < length (closures w)"
  shows "cframe c w w'"
proof (cases "file")
  case None
  then show ?thesis using assms by (simp add: new_poller_def)
next
  case (Some name)
  let ?w1 = "w\<lparr>pollers := pollers w @
                      [\<lparr>filename = name, streamIdentifierP = take 8 name,
                        segmentIndex = index_of_name name, streamObject = map_of (streams w) (take 8 name),
                        maxTries = (if hlsSegmentDuration * 2 < 10 then 10 else hlsSegmentDuration * 2),
                        currentTry = 0, transcodeStarting = False, newTranscoderStarted = False,
                        res = r, timeouts = 0\<rparr>]\<rparr>"
  let ?w2 = "(case map_of (streams w) (take 8 name) of
                       None \<Rightarrow> ?w1
                     | Some a \<Rightarrow> upd_stream a (\<lambda>s. s\<lparr>lastActivity := now ?w1\<rparr>) ?w1)"
  have p: "poll (length (pollers w)) ?w2 = Inr w'"
    using assms(1) unfolding Some new_poller_def Let_def by simp
  have c2: "closures ?w2 = closures w" "callbacks_of c ?w2 = callbacks_of c w" "runs_of c ?w2 = runs_of c w"
    by (simp_all split: option.splits)
  from poll_cframe[OF p, of c] assms(2) show ?thesis by (simp add: cframe_def c2)
qed

lemma handle_request_cframe:
  assumes "handle_request req fresh w = Inr w'" "c < length (closures w)"
  shows "cframe c w w'"
proof (cases "req_method req \<noteq> ''OPTIONS'' \<and> uri req \<noteq> ''/watch.m3u8'' \<and> uri req = ''/segment.ts''")
  case True
  then have "new_poller (requests w) (query_file req) (w\<lparr>requests := Suc (requests w)\<rparr>) = Inr w'"
    using assms(1) by (simp add: handle_request_def Let_def)
  from new_poller_cframe[OF this, of c] assms(2) show ?thesis by (simp add: cframe_def)
next
  case False
  then show ?thesis using assms
    by (auto simp: handle_request_def Let_def cframe_def spawn_proj cb_act runs_act nth_append
             split: if_splits option.splits)
qed

lemma probe_err_proj:
  assumes "c < length (closures w)"
  shows "\<exists>w'. probe_callback c ProbeErr w = Inr w' \<and>
     closures w' = (closures w)[c := (closures w ! c)\<lparr>probing := False, initialCallbackSent := True\<rparr>] \<and>
     callbacks_of c' w' = callbacks_of c' w @ (if c' = c then [CallError c] else []) \<and>
     runs_of c' w' = runs_of c' w \<and> length (heap w') = length (heap w)"
  using assms by (simp add: probe_callback_def Let_def cb_act runs_act)

lemma probe_ok_proj:
  assumes "c < length (closures w)" "probe_callback c (ProbeOk d) w = Inr w'"
  shows "\<exists>m fs. generateM3U8 d (streamIdentifier (heap w ! this (closures w ! c))) (files w) = Inr (m, fs) \<and>
     closures w' = (closures w)[c := (closures w ! c)\<lparr>probing := False, placeholderM3U8 := m, running := True\<rparr>] \<and>
     callbacks_of c' w' = callbacks_of c' w \<and>
     (\<exists>sk. runs_of c' w' = runs_of c' w @ (if c' = c then [FfmpegRun c sk] else [])) \<and>
     length (heap w') = length (heap w)"
  using assms
  by (auto simp: probe_callback_def Let_def cb_act runs_act split: option.splits sum.splits)

lemma latch_upd_id [simp]:
  "initialCallbackSent k \<Longrightarrow> k\<lparr>initialCallbackSent := True\<rparr> = k"
  by (cases k) simp

lemma on_error_proj:
  assumes "c < length (closures w)"
  shows "closures (on_error c w) = (closures w)[c := (closures w ! c)\<lparr>initialCallbackSent := True\<rparr>] \<and>
         callbacks_of c' (on_error c w) = callbacks_of c' w @
           (if c' = c \<and> \<not> initialCallbackSent (closures w ! c) then [CallError c] else []) \<and>
         runs_of c' (on_error c w) = runs_of c' w \<and>
         length (heap (on_error c w)) = length (heap w)"
  using assms
  by (auto simp: on_error_def Let_def cb_act runs_act)

lemma on_start_proj:
  assumes "c < length (closures w)"
  shows "closures (on_start c w) = (closures w)[c := (closures w ! c)\<lparr>initialCallbackSent := True\<rparr>] \<and>
         callbacks_of c' (on_start c w) = callbacks_of c' w @
           (if c' = c \<and> \<not> initialCallbackSent (closures w ! c)
            then [CallSuccess c (placeholderM3U8 (closures w ! c))] else []) \<and>
         runs_of c' (on_start c w) = runs_of c' w \<and>
         length (heap (on_start c w)) = length (heap w)"
  using assms
  by (auto simp: on_start_def Let_def cb_act runs_act)

lemma on_end_proj [simp]:
  "closures (on_end c w) = closures w"
  "callbacks_of c' (on_end c w) = callbacks_of c' w"
  "runs_of c' (on_end c w) = runs_of c' w"
  "length (heap (on_end c w)) = length (heap w)"
  by (simp_all add: on_end_def)

lemma step_cframe:
  assumes "step e w = Inr w'" "c < length (closures w)"
    and "\<forall>r. e \<noteq> ProbeDone c r" "e \<noteq> ProcError c" "e \<noteq> ProcStart c"
  shows "cframe c w w'"
proof (cases e)
  case (Request req fresh)
  then show ?thesis using assms handle_request_cframe[of req fresh w w' c] by (simp add: step_def)
next
  case (ProbeDone c' r)
  then have ne: "c' \<noteq> c" using assms(3) by auto
  show ?thesis
  proof (cases "c' < length (closures w) \<and> probing (closures w ! c')")
    case False
    then show ?thesis using assms ProbeDone by (auto simp: step_def)
  next
    case True
    then have p: "probe_callback c' r w = Inr w'" using assms ProbeDone by (simp add: step_def)
    show ?thesis
    proof (cases r)
      case ProbeErr
      from probe_err_proj[of c' w c] True p ProbeErr ne assms(2) show ?thesis
        by (auto simp: cframe_def)
    next
      case (ProbeOk d)
      from probe_ok_proj[of c' w d w' c] True p ProbeOk ne assms(2) show ?thesis
        by (auto simp: cframe_def)
    qed
  qed
next
  case (ProcError c')
  then have ne: "c' \<noteq> c" using assms(4) by auto
  then show ?thesis using assms ProcError on_error_proj[of c' w c]
    by (auto simp: step_def cframe_def split: if_splits)
next
  case (ProcStart c')
  then have ne: "c' \<noteq> c" using assms(5) by auto
  then show ?thesis using assms ProcStart on_start_proj[of c' w c]
    by (auto simp: step_def cframe_def split: if_splits)
next
  case (ProcEnd c')
  then show ?thesis using assms by (auto simp: step_def cframe_def split: if_splits)
next
  case (IntervalTick a)
  then show ?thesis using assms by (auto simp: step_def cframe_def split: if_splits)
next
  case (TimeoutFires p)
  show ?thesis
  proof (cases "p < length (pollers w) \<and> 0 < timeouts (pollers w ! p)")
    case True
    then have "poll p (upd_poller p (\<lambda>q. q\<lparr>timeouts := timeouts q - 1\<rparr>) w) = Inr w'"
      using assms TimeoutFires by (simp add: step_def)
    from poll_cframe[OF this, of c] assms(2) show ?thesis by (simp add: cframe_def)
  next
    case False
    then show ?thesis using assms TimeoutFires by (auto simp: step_def)
  qed
next
  case (TimePasses ms)
  then show ?thesis using assms by (auto simp: step_def cframe_def)
next
  case (FileWritten name content)
  then show ?thesis using assms by (auto simp: step_def cframe_def)
next
  case (UnlinkDone name ok)
  then show ?thesis using assms
    by (auto simp: step_def cframe_def Let_def act_def callbacks_of_def runs_of_def is_callback_of_def is_run_of_def split: if_splits)
qed

lemma step_probing:
  assumes "step e w = Inr w'" "c < length (closures w)"
    and "probing (closures w ! c)" "\<not> running (closures w ! c)"
  shows "(e = ProbeDone c ProbeErr \<and>
            closures w' ! c = (closures w ! c)\<lparr>probing := False, initialCallbackSent := True\<rparr> \<and>
            c < length (closures w') \<and>
            callbacks_of c w' = callbacks_of c w @ [CallError c] \<and> runs_of c w' = runs_of c w)
       \<or> (\<exists>d m fs sk. e = ProbeDone c (ProbeOk d) \<and>
            generateM3U8 d (streamIdentifier (heap w ! this (closures w ! c))) (files w) = Inr (m, fs) \<and>
            closures w' ! c = (closures w ! c)\<lparr>probing := False, placeholderM3U8 := m, running := True\<rparr> \<and>
            c < length (closures w') \<and>
            callbacks_of c w' = callbacks_of c w \<and> runs_of c w' = runs_of c w @ [FfmpegRun c sk])
       \<or> ((\<forall>r. e \<noteq> ProbeDone c r) \<and> cframe c w w')"
proof (cases "\<exists>r. e = ProbeDone c r")
  case True
  then obtain r where e: "e = ProbeDone c r" by auto
  then have p: "probe_callback c r w = Inr w'" using assms by (simp add: step_def)
  show ?thesis
  proof (cases r)
    case ProbeErr
    from probe_err_proj[OF assms(2), of c] p ProbeErr e assms(2) show ?thesis by auto
  next
    case (ProbeOk d)
    from probe_ok_proj[OF assms(2), of d w' c] p ProbeOk e assms(2) show ?thesis by auto
  qed
next
  case False
  show ?thesis
  proof (cases "e = ProcError c \<or> e = ProcStart c")
    case True
    then have "w' = w" using assms by (auto simp: step_def)
    then show ?thesis using False assms(2) by simp
  next
    case ne: False
    from step_cframe[OF assms(1,2)] False ne show ?thesis by auto
  qed
qed

lemma step_running:
  assumes "step e w = Inr w'" "c < length (closures w)"
    and "\<not> probing (closures w ! c)" "running (closures w ! c)" "\<not> initialCallbackSent (closures w ! c)"
  shows "(e = ProcError c \<and>
            closures w' ! c = (closures w ! c)\<lparr>initialCallbackSent := True\<rparr> \<and>
            c < length (closures w') \<and>
            callbacks_of c w' = callbacks_of c w @ [CallError c] \<and> runs_of c w' = runs_of c w)
       \<or> (e = ProcStart c \<and>
            closures w' ! c = (closures w ! c)\<lparr>initialCallbackSent := True\<rparr> \<and>
            c < length (closures w') \<and>
            callbacks_of c w' = callbacks_of c w @ [CallSuccess c (placeholderM3U8 (closures w ! c))] \<and>
            runs_of c w' = runs_of c w)
       \<or> (e \<noteq> ProcError c \<and> e \<noteq> ProcStart c \<and> cframe c w w')"
proof (cases "\<exists>r. e = ProbeDone c r")
  case True
  then have "w' = w" using assms by (auto simp: step_def)
  then show ?thesis using True assms(2) by auto
next
  case False
  show ?thesis
  proof (cases "e = ProcError c \<or> e = ProcStart c")
    case True
    then show ?thesis using assms on_error_proj[OF assms(2), of c] on_start_proj[OF assms(2), of c]
      by (auto simp: step_def)
  next
    case ne: False
    from step_cframe[OF assms(1,2)] False ne show ?thesis by auto
  qed
qed

lemma step_latched:
  assumes "step e w = Inr w'" "c < length (closures w)"
    and "\<not> probing (closures w ! c)" "initialCallbackSent (closures w ! c)"
  shows "cframe c w w'"
proof (cases "\<exists>r. e = ProbeDone c r")
  case True
  then have "w' = w" using assms by (auto simp: step_def)
  then show ?thesis using assms(2) by simp
next
  case False
  show ?thesis
  proof (cases "e = ProcError c \<or> e = ProcStart c")
    case True
    then show ?thesis using assms on_error_proj[OF assms(2), of c] on_start_proj[OF assms(2), of c]
      by (auto simp: step_def cframe_def split: if_splits)
  next
    case ne: False
    from step_cframe[OF assms(1,2)] False ne show ?thesis by auto
  qed
qed

lemma hframe_refl [simp]: "hframe w w"
  by (simp add: hframe_def)

lemma hframe_trans: "hframe w w' \<Longrightarrow> hframe w' w'' \<Longrightarrow> hframe w w''"
  by (auto simp: hframe_def)

lemma hframe_same: "heap w' = heap w \<Longrightarrow> hframe w w'"
  by (simp add: hframe_def)

lemma sid_upd [simp]:
  "streamIdentifier y = streamIdentifier (xs ! a) \<Longrightarrow>
     streamIdentifier (xs[a := y] ! aa) = streamIdentifier (xs ! aa)"
  by (cases "a = aa"; cases "a < length xs") (auto simp: list_update_beyond)

lemma kill_hframe: "hframe w (kill a r w)"
  by (auto simp: hframe_def kill_eq)

lemma checkDestruct_hframe: "hframe w (checkDestruct a w)"
  by (simp add: checkDestruct_def kill_hframe)

lemma call_error_hframe: "hframe w (call_error cb w)"
proof (cases cb)
  case (WatchError r a ident)
  have "hframe w (kill a False w)" by (rule kill_hframe)
  then show ?thesis using WatchError by (simp add: call_error_def Let_def hframe_def)
next
  case (PollerError p)
  then show ?thesis by (simp add: call_error_def hframe_same)
qed

lemma spawn_hframe: "hframe w (spawn a s e w)"
  by (auto simp: hframe_def spawn_heap startSelfDestructor_def)

lemma probe_callback_hframe:
  assumes "probe_callback c r w = Inr w'"
  shows "hframe w w'"
proof (cases r)
  case ProbeErr
  have "hframe (act (CallError c) (upd_closure c (\<lambda>k. k\<lparr>initialCallbackSent := True\<rparr>) (upd_closure c (\<lambda>k. k\<lparr>probing := False\<rparr>) w)))
     (call_error (errorCallback (closures (upd_closure c (\<lambda>k. k\<lparr>initialCallbackSent := True\<rparr>) (upd_closure c (\<lambda>k. k\<lparr>probing := False\<rparr>) w)) ! c))
        (act (CallError c) (upd_closure c (\<lambda>k. k\<lparr>initialCallbackSent := True\<rparr>) (upd_closure c (\<lambda>k. k\<lparr>probing := False\<rparr>) w))))"
    by (rule call_error_hframe)
  then show ?thesis using assms ProbeErr by (auto simp: probe_callback_def Let_def hframe_def)
next
  case (ProbeOk d)
  then show ?thesis using assms
    by (auto simp: probe_callback_def Let_def hframe_def split: option.splits sum.splits)
qed

lemma on_error_hframe: "hframe w (on_error c w)"
proof (cases "initialCallbackSent (closures w ! c)")
  case True
  then show ?thesis by (auto simp: on_error_def hframe_def)
next
  case False
  have "hframe (act (CallError c) (upd_closure c (\<lambda>k. k\<lparr>initialCallbackSent := True\<rparr>) w))
     (call_error (errorCallback (closures (upd_closure c (\<lambda>k. k\<lparr>initialCallbackSent := True\<rparr>) w) ! c))
        (act (CallError c) (upd_closure c (\<lambda>k. k\<lparr>initialCallbackSent := True\<rparr>) w)))"
    by (rule call_error_hframe)
  then show ?thesis using False by (auto simp: on_error_def Let_def hframe_def)
qed

lemma on_start_hframe: "hframe w (on_start c w)"
  by (simp add: on_start_def Let_def hframe_def)

lemma on_end_hframe: "hframe w (on_end c w)"
  by (simp add: on_end_def kill_hframe)

lemma poll_hframe:
  assumes "poll p w = Inr w'"
  shows "hframe w w'"
  using assms
  by (auto simp: poll_def Let_def hframe_def spawn_heap startSelfDestructor_def
           split: if_splits option.splits)

lemma new_poller_hframe:
  assumes "new_poller r fl w = Inr w'"
  shows "hframe w w'"
proof (cases fl)
  case None
  then show ?thesis using assms by (simp add: new_poller_def)
next
  case (Some name)
  let ?w1 = "w\<lparr>pollers := pollers w @
                      [\<lparr>filename = name, streamIdentifierP = take 8 name,
                        segmentIndex = index_of_name name, streamObject = map_of (streams w) (take 8 name),
                        maxTries = (if hlsSegmentDuration * 2 < 10 then 10 else hlsSegmentDuration * 2),
                        currentTry = 0, transcodeStarting = False, newTranscoderStarted = False,
                        res = r, timeouts = 0\<rparr>]\<rparr>"
  let ?w2 = "(case map_of (streams w) (take 8 name) of
                       None \<Rightarrow> ?w1
                     | Some a \<Rightarrow> upd_stream a (\<lambda>s. s\<lparr>lastActivity := now ?w1\<rparr>) ?w1)"
  have p: "poll (length (pollers w)) ?w2 = Inr w'"
    using assms(1) unfolding Some new_poller_def Let_def by simp
  have "hframe w ?w2" by (auto simp: hframe_def split: option.splits)
  from hframe_trans[OF this poll_hframe[OF p]] show ?thesis .
qed

lemma handle_request_hframe:
  assumes "handle_request req fresh w = Inr w'"
  shows "hframe w w'"
proof (cases "req_method req \<noteq> ''OPTIONS'' \<and> uri req \<noteq> ''/watch.m3u8'' \<and> uri req = ''/segment.ts''")
  case True
  then have "new_poller (requests w) (query_file req) (w\<lparr>requests := Suc (requests w)\<rparr>) = Inr w'"
    using assms(1) by (simp add: handle_request_def Let_def)
  from new_poller_hframe[OF this] show ?thesis by (simp add: hframe_def)
next
  case False
  then show ?thesis using assms
    apply (auto simp: handle_request_def Let_def hframe_same split: if_splits option.splits)
    apply (auto simp: hframe_def spawn_heap startSelfDestructor_def nth_append)
    done
qed

lemma step_hframe:
  assumes "step e w = Inr w'"
  shows "hframe w w'"
proof (cases e)
  case (Request req fresh)
  then show ?thesis using assms handle_request_hframe by (simp add: step_def)
next
  case (ProbeDone c r)
  then show ?thesis using assms probe_callback_hframe by (auto simp: step_def split: if_splits)
next
  case (ProcError c)
  then show ?thesis using assms on_error_hframe by (auto simp: step_def split: if_splits)
next
  case (ProcStart c)
  then show ?thesis using assms on_start_hframe by (auto simp: step_def split: if_splits)
next
  case (ProcEnd c)
  then show ?thesis using assms on_end_hframe by (auto simp: step_def split: if_splits)
next
  case (IntervalTick a)
  then show ?thesis using assms checkDestruct_hframe by (auto simp: step_def split: if_splits)
next
  case (TimeoutFires p)
  show ?thesis
  proof (cases "p < length (pollers w) \<and> 0 < timeouts (pollers w ! p)")
    case True
    then have "poll p (upd_poller p (\<lambda>q. q\<lparr>timeouts := timeouts q - 1\<rparr>) w) = Inr w'"
      using assms TimeoutFires by (simp add: step_def)
    from poll_hframe[OF this] show ?thesis by (simp add: hframe_def)
  next
    case False
    then show ?thesis using assms TimeoutFires by (auto simp: step_def)
  qed
next
  case (TimePasses ms)
  then show ?thesis using assms by (auto simp: step_def hframe_def)
next
  case (FileWritten name content)
  then show ?thesis using assms by (auto simp: step_def hframe_def)
next
  case (UnlinkDone name ok)
  then show ?thesis using assms
    by (auto simp: step_def hframe_def Let_def act_def  split: if_splits)
qed

lemma run_hframe:
  assumes "run evs w = Inr w'"
  shows "hframe w w'"
  using assms
proof (induction evs arbitrary: w)
  case Nil
  then show ?case by simp
next
  case (Cons e evs)
  then obtain wm where s: "step e w = Inr wm" and r: "run evs wm = Inr w'"
    by (auto split: sum.splits)
  from hframe_trans[OF step_hframe[OF s] Cons.IH[OF r]] show ?case .
qed

lemma cframe_trans: "cframe c w w' \<Longrightarrow> cframe c w' w'' \<Longrightarrow> cframe c w w''"
  by (simp add: cframe_def)

lemma run_append:
  assumes "run (xs @ ys) w = Inr w'"
  shows "\<exists>wm. run xs w = Inr wm \<and> run ys wm = Inr w'"
  using assms by (induction xs arbitrary: w) (auto split: sum.splits)

lemma run_Cons:
  assumes "run (e # es) w = Inr w'"
  shows "\<exists>wm. step e w = Inr wm \<and> run es wm = Inr w'"
  using assms by (auto split: sum.splits)

lemma step_cinv:
  assumes "cinv c base w" "step e w = Inr w'"
  shows "cinv c base w'"
proof -
  have c: "c < length (closures w)" using assms(1) by (simp add: cinv_def)
  consider (P0) "probing (closures w ! c)" "\<not> running (closures w ! c)" "\<not> initialCallbackSent (closures w ! c)"
    | (P1) "\<not> probing (closures w ! c)" "running (closures w ! c)" "\<not> initialCallbackSent (closures w ! c)"
    | (P2) "\<not> probing (closures w ! c)" "initialCallbackSent (closures w ! c)"
    using assms(1) by (auto simp: cinv_def)
  then show ?thesis
  proof cases
    case P0
    from step_probing[OF assms(2) c P0(1,2)] show ?thesis
      using assms(1) P0 by (auto simp: cinv_def cframe_def)
  next
    case P1
    from step_running[OF assms(2) c P1] show ?thesis
      using assms(1) P1 by (auto simp: cinv_def cframe_def)
  next
    case P2
    from step_latched[OF assms(2) c P2] show ?thesis
      using assms(1) P2 by (auto simp: cinv_def cframe_def)
  qed
qed

lemma run_cinv:
  assumes "cinv c base w" "run evs w = Inr w'"
  shows "cinv c base w'"
  using assms
proof (induction evs arbitrary: w)
  case Nil
  then show ?case by simp
next
  case (Cons e evs)
  from run_Cons[OF Cons.prems(2)] obtain wm where s: "step e w = Inr wm" and r: "run evs wm = Inr w'" by auto
  from Cons.IH[OF step_cinv[OF Cons.prems(1) s] r] show ?case .
qed

lemma spawn_cinv: "cinv (length (closures w)) (callbacks_of (length (closures w)) w) (spawn a s e w)"
  by (simp add: cinv_def spawn_proj)

lemma run_probing:
  assumes "run evs w = Inr w'" "c < length (closures w)"
    and "probing (closures w ! c)" "\<not> running (closures w ! c)" "\<forall>r. ProbeDone c r \<notin> set evs"
  shows "cframe c w w'"
  using assms
proof (induction evs arbitrary: w)
  case Nil
  then show ?case by simp
next
  case (Cons e evs)
  from run_Cons[OF Cons.prems(1)] obtain wm where s: "step e w = Inr wm" and r: "run evs wm = Inr w'" by auto
  have ne: "\<forall>r. e \<noteq> ProbeDone c r" using Cons.prems(5) by auto
  from step_probing[OF s Cons.prems(2,3,4)] ne have f: "cframe c w wm" by auto
  then have "cframe c wm w'" using Cons.IH[OF r] Cons.prems by (auto simp: cframe_def)
  from cframe_trans[OF f this] show ?case .
qed

lemma run_running:
  assumes "run evs w = Inr w'" "c < length (closures w)"
    and "\<not> probing (closures w ! c)" "running (closures w ! c)" "\<not> initialCallbackSent (closures w ! c)"
    and "ProcError c \<notin> set evs" "ProcStart c \<notin> set evs"
  shows "cframe c w w'"
  using assms
proof (induction evs arbitrary: w)
  case Nil
  then show ?case by simp
next
  case (Cons e evs)
  from run_Cons[OF Cons.prems(1)] obtain wm where s: "step e w = Inr wm" and r: "run evs wm = Inr w'" by auto
  have ne: "e \<noteq> ProcError c" "e \<noteq> ProcStart c" using Cons.prems(6,7) by auto
  from step_running[OF s Cons.prems(2,3,4,5)] ne have f: "cframe c w wm" by auto
  then have "cframe c wm w'" using Cons.IH[OF r] Cons.prems by (auto simp: cframe_def)
  from cframe_trans[OF f this] show ?case .
qed

lemma run_latched:
  assumes "run evs w = Inr w'" "c < length (closures w)"
    and "\<not> probing (closures w ! c)" "initialCallbackSent (closures w ! c)"
  shows "cframe c w w'"
  using assms
proof (induction evs arbitrary: w)
  case Nil
  then show ?case by simp
next
  case (Cons e evs)
  from run_Cons[OF Cons.prems(1)] obtain wm where s: "step e w = Inr wm" and r: "run evs wm = Inr w'" by auto
  from step_latched[OF s Cons.prems(2,3,4)] have f: "cframe c w wm" .
  then have "cframe c wm w'" using Cons.IH[OF r] Cons.prems by (auto simp: cframe_def)
  from cframe_trans[OF f this] show ?case .
qed

lemma spawn_fresh:
  "closures (spawn a s e w) ! length (closures w) =
     \<lparr>this = a, initialCallbackSent = False, successCallback = s, errorCallback = e,
      placeholderM3U8 = [], probing = True, running = False\<rparr>"
  "length (closures w) < length (closures (spawn a s e w))"
  by (simp_all add: spawn_proj)

lemma callbacks_at_most_one:
  assumes "run evs (spawn a s e w) = Inr w'"
  shows "\<exists>cbs. callbacks_of (length (closures w)) w' = callbacks_of (length (closures w)) w @ cbs \<and> length cbs \<le> 1"
proof -
  from run_cinv[OF spawn_cinv assms]
  have "cinv (length (closures w)) (callbacks_of (length (closures w)) w) w'" .
  then show ?thesis by (auto simp: cinv_def split: if_splits)
qed

lemma probe_failure_case:
  assumes r: "run (evs @ ProbeDone c ProbeErr # evs') (spawn a s e w) = Inr w'"
    and c: "c = length (closures w)" and ne: "\<forall>r. ProbeDone c r \<notin> set evs"
  shows "callbacks_of c w' = callbacks_of c w @ [CallError c] \<and> runs_of c w' = runs_of c w"
proof -
  let ?w1 = "spawn a s e w"
  from run_append[OF r] obtain wa where ra: "run evs ?w1 = Inr wa"
    and rb: "run (ProbeDone c ProbeErr # evs') wa = Inr w'" by auto
  from run_Cons[OF rb] obtain wb where sb: "step (ProbeDone c ProbeErr) wa = Inr wb"
    and rc: "run evs' wb = Inr w'" by auto
  have c1: "c < length (closures ?w1)" "probing (closures ?w1 ! c)" "\<not> running (closures ?w1 ! c)"
    using spawn_fresh[where a=a and s=s and e=e and w=w] c by simp_all
  from run_probing[OF ra c1 ne] have fa: "cframe c ?w1 wa" .
  then have ca: "c < length (closures wa)" "probing (closures wa ! c)" "\<not> running (closures wa ! c)"
    using c1 by (simp_all add: cframe_def)
  from step_probing[OF sb ca] have
    b: "closures wb ! c = (closures wa ! c)\<lparr>probing := False, initialCallbackSent := True\<rparr>"
       "c < length (closures wb)"
       "callbacks_of c wb = callbacks_of c wa @ [CallError c]" "runs_of c wb = runs_of c wa"
    by auto
  have "cframe c wb w'" using run_latched[OF rc b(2)] b(1) by simp
  then show ?thesis using b fa by (simp add: cframe_def spawn_proj)
qed

lemma probe_success_phase:
  assumes r: "run (evs @ ProbeDone c (ProbeOk d) # evs') (spawn a s e w) = Inr w'"
    and c: "c = length (closures w)" and ne: "\<forall>r. ProbeDone c r \<notin> set evs"
    and a: "a < length (heap w)"
  shows "\<exists>wb m fs fs'. run evs' wb = Inr w' \<and> c < length (closures wb) \<and>
           \<not> probing (closures wb ! c) \<and> running (closures wb ! c) \<and>
           \<not> initialCallbackSent (closures wb ! c) \<and> placeholderM3U8 (closures wb ! c) = m \<and>
           generateM3U8 d (streamIdentifier (heap w ! a)) fs = Inr (m, fs') \<and>
           callbacks_of c wb = callbacks_of c w"
proof -
  let ?w1 = "spawn a s e w"
  from run_append[OF r] obtain wa where ra: "run evs ?w1 = Inr wa"
    and rb: "run (ProbeDone c (ProbeOk d) # evs') wa = Inr w'" by auto
  from run_Cons[OF rb] obtain wb where sb: "step (ProbeDone c (ProbeOk d)) wa = Inr wb"
    and rc: "run evs' wb = Inr w'" by auto
  have c1: "c < length (closures ?w1)" "probing (closures ?w1 ! c)" "\<not> running (closures ?w1 ! c)"
    using spawn_fresh[where a=a and s=s and e=e and w=w] c by simp_all
  from run_probing[OF ra c1 ne] have fa: "cframe c ?w1 wa" .
  then have ca: "c < length (closures wa)" "probing (closures wa ! c)" "\<not> running (closures wa ! c)"
    using c1 by (simp_all add: cframe_def)
  have ka: "closures wa ! c = closures ?w1 ! c" using fa by (simp add: cframe_def)
  have this_a: "this (closures wa ! c) = a" "\<not> initialCallbackSent (closures wa ! c)"
    using ka spawn_fresh(1)[where a=a and s=s and e=e and w=w] c by simp_all
  have "hframe w wa" using hframe_trans[OF spawn_hframe run_hframe[OF ra]] .
  then have ident: "streamIdentifier (heap wa ! a) = streamIdentifier (heap w ! a)"
    using a by (simp add: hframe_def)
  from step_probing[OF sb ca] obtain m fs where
    b: "generateM3U8 d (streamIdentifier (heap wa ! this (closures wa ! c))) (files wa) = Inr (m, fs)"
       "closures wb ! c = (closures wa ! c)\<lparr>probing := False, placeholderM3U8 := m, running := True\<rparr>"
       "c < length (closures wb)" "callbacks_of c wb = callbacks_of c wa"
    by auto
  have base: "callbacks_of c wb = callbacks_of c w" using fa b(4) by (simp add: cframe_def spawn_proj)
  have g: "generateM3U8 d (streamIdentifier (heap w ! a)) (files wa) = Inr (m, fs)"
    using b(1) this_a ident by simp
  have k: "\<not> probing (closures wb ! c)" "running (closures wb ! c)"
    "\<not> initialCallbackSent (closures wb ! c)" "placeholderM3U8 (closures wb ! c) = m"
    using b(2) this_a by simp_all
  show ?thesis using rc b(3) k g base by blast
qed

lemma error_first_case:
  assumes r: "run (evs @ ProbeDone c (ProbeOk d) # evs' @ ProcError c # evs'') (spawn a s e w) = Inr w'"
    and c: "c = length (closures w)" and ne: "\<forall>r. ProbeDone c r \<notin> set evs"
    and a: "a < length (heap w)" and ne': "ProcError c \<notin> set evs'" "ProcStart c \<notin> set evs'"
  shows "callbacks_of c w' = callbacks_of c w @ [CallError c]"
proof -
  from probe_success_phase[OF r c ne a] obtain wb where
    rb: "run (evs' @ ProcError c # evs'') wb = Inr w'" and cb: "c < length (closures wb)"
    and pb: "\<not> probing (closures wb ! c)" "running (closures wb ! c)" "\<not> initialCallbackSent (closures wb ! c)"
    and base: "callbacks_of c wb = callbacks_of c w" by auto
  from run_append[OF rb] obtain wc where rc: "run evs' wb = Inr wc"
    and rd: "run (ProcError c # evs'') wc = Inr w'" by auto
  from run_Cons[OF rd] obtain wd where sd: "step (ProcError c) wc = Inr wd"
    and re: "run evs'' wd = Inr w'" by auto
  from run_running[OF rc cb pb ne'] have fc: "cframe c wb wc" .
  then have cc: "c < length (closures wc)" "\<not> probing (closures wc ! c)" "running (closures wc ! c)"
    "\<not> initialCallbackSent (closures wc ! c)" using pb by (simp_all add: cframe_def)
  from step_running[OF sd cc] have
    d: "closures wd ! c = (closures wc ! c)\<lparr>initialCallbackSent := True\<rparr>" "c < length (closures wd)"
       "callbacks_of c wd = callbacks_of c wc @ [CallError c]"
    by auto
  have "cframe c wd w'" using run_latched[OF re d(2)] d(1) cc by simp
  then show ?thesis using d fc base by (simp add: cframe_def)
qed

lemma start_first_case:
  assumes r: "run (evs @ ProbeDone c (ProbeOk d) # evs' @ ProcStart c # evs'') (spawn a s e w) = Inr w'"
    and c: "c = length (closures w)" and ne: "\<forall>r. ProbeDone c r \<notin> set evs"
    and a: "a < length (heap w)" and ne': "ProcError c \<notin> set evs'" "ProcStart c \<notin> set evs'"
  shows "\<exists>m fs fs'. generateM3U8 d (streamIdentifier (heap w ! a)) fs = Inr (m, fs') \<and>
           callbacks_of c w' = callbacks_of c w @ [CallSuccess c m]"
proof -
  from probe_success_phase[OF r c ne a] obtain wb m fs fs' where
    rb: "run (evs' @ ProcStart c # evs'') wb = Inr w'" and cb: "c < length (closures wb)"
    and pb: "\<not> probing (closures wb ! c)" "running (closures wb ! c)" "\<not> initialCallbackSent (closures wb ! c)"
    and m: "placeholderM3U8 (closures wb ! c) = m" "generateM3U8 d (streamIdentifier (heap w ! a)) fs = Inr (m, fs')"
    and base: "callbacks_of c wb = callbacks_of c w" by auto
  from run_append[OF rb] obtain wc where rc: "run evs' wb = Inr wc"
    and rd: "run (ProcStart c # evs'') wc = Inr w'" by auto
  from run_Cons[OF rd] obtain wd where sd: "step (ProcStart c) wc = Inr wd"
    and re: "run evs'' wd = Inr w'" by auto
  from run_running[OF rc cb pb ne'] have fc: "cframe c wb wc" .
  then have cc: "c < length (closures wc)" "\<not> probing (closures wc ! c)" "running (closures wc ! c)"
    "\<not> initialCallbackSent (closures wc ! c)" using pb by (simp_all add: cframe_def)
  from step_running[OF sd cc] have
    d: "closures wd ! c = (closures wc ! c)\<lparr>initialCallbackSent := True\<rparr>" "c < length (closures wd)"
       "callbacks_of c wd = callbacks_of c wc @ [CallSuccess c (placeholderM3U8 (closures wc ! c))]"
    by auto
  have "cframe c wd w'" using run_latched[OF re d(2)] d(1) cc by simp
  then have "callbacks_of c w' = callbacks_of c w @ [CallSuccess c m]"
    using d fc base m by (simp add: cframe_def)
  then show ?thesis using m by blast
qed

section \<open>Pollers\<close>

lemma pframe_refl: "nts_of p w \<Longrightarrow> pframe p w w"
  by (simp add: pframe_def)

lemma pframe_trans: "pframe p w w' \<Longrightarrow> pframe p w' w'' \<Longrightarrow> pframe p w w''"
  by (simp add: pframe_def)

lemma spawn_calls_alt:
  "spawn_calls p w = length (filter (\<lambda>s. s = PollerSuccess p) (map successCallback (closures w)))"
  by (simp add: spawn_calls_def filter_map o_def)

lemma map_sc_update:
  assumes "successCallback y = successCallback (cs ! c)"
  shows "map successCallback (cs[c := y]) = map successCallback cs"
proof (cases "c < length cs")
  case True
  then show ?thesis using assms by (simp add: map_update list_update_same_conv)
next
  case False
  then show ?thesis by (simp add: list_update_beyond)
qed

lemma sc_prims [simp]:
  "spawn_calls p (upd_stream a f w) = spawn_calls p w"
  "spawn_calls p (upd_poller p' h w) = spawn_calls p w"
  "spawn_calls p (act x w) = spawn_calls p w"
  "spawn_calls p (w\<lparr>streams := ss\<rparr>) = spawn_calls p w"
  "spawn_calls p (w\<lparr>heap := hh\<rparr>) = spawn_calls p w"
  "spawn_calls p (w\<lparr>pollers := pp\<rparr>) = spawn_calls p w"
  "spawn_calls p (w\<lparr>files := ff\<rparr>) = spawn_calls p w"
  "spawn_calls p (w\<lparr>now := nn\<rparr>) = spawn_calls p w"
  "spawn_calls p (w\<lparr>requests := rr\<rparr>) = spawn_calls p w"
  "spawn_calls p (w\<lparr>trace := tt\<rparr>) = spawn_calls p w"
  by (simp_all add: spawn_calls_def)

lemma sc_upd_closure:
  assumes "\<And>k. successCallback (g k) = successCallback k"
  shows "spawn_calls p (upd_closure c g w) = spawn_calls p w"
  using assms by (simp add: spawn_calls_alt map_sc_update)

lemma sc_same: "closures w' = closures w \<Longrightarrow> spawn_calls p w' = spawn_calls p w"
  by (simp add: spawn_calls_def)

lemma sc_spawn:
  "spawn_calls p (spawn a s e w) = spawn_calls p w + (if s = PollerSuccess p then 1 else 0)"
  by (simp add: spawn_calls_def spawn_proj)

lemma nts_prims [simp]:
  "nts_of p (upd_stream a f w) = nts_of p w"
  "nts_of p (upd_closure c g w) = nts_of p w"
  "nts_of p (act x w) = nts_of p w"
  "nts_of p (w\<lparr>streams := ss\<rparr>) = nts_of p w"
  "nts_of p (w\<lparr>heap := hh\<rparr>) = nts_of p w"
  "nts_of p (w\<lparr>closures := cc\<rparr>) = nts_of p w"
  "nts_of p (w\<lparr>files := ff\<rparr>) = nts_of p w"
  "nts_of p (w\<lparr>now := nn\<rparr>) = nts_of p w"
  "nts_of p (w\<lparr>requests := rr\<rparr>) = nts_of p w"
  "nts_of p (w\<lparr>trace := tt\<rparr>) = nts_of p w"
  by (simp_all add: nts_of_def)

lemma nts_same: "pollers w' = pollers w \<Longrightarrow> nts_of p w' = nts_of p w"
  by (simp add: nts_of_def)

lemma nts_upd_poller:
  assumes "nts_of p w" "\<And>q. newTranscoderStarted q \<Longrightarrow> newTranscoderStarted (h q)"
  shows "nts_of p (upd_poller p' h w)"
  using assms by (cases "p' = p") (auto simp: nts_of_def)

lemma nts_append: "nts_of p w \<Longrightarrow> nts_of p (w\<lparr>pollers := pollers w @ qs\<rparr>)"
  by (simp add: nts_of_def nth_append)

lemma kill_pframe: "nts_of p w \<Longrightarrow> pframe p w (kill a r w)"
  by (simp add: pframe_def nts_of_def spawn_calls_def)

lemma checkDestruct_pframe: "nts_of p w \<Longrightarrow> pframe p w (checkDestruct a w)"
  by (simp add: pframe_def nts_of_def spawn_calls_def)

lemma retry_pframe: "nts_of p w \<Longrightarrow> pframe p w (retry p' w)"
  by (simp add: pframe_def retry_def nts_upd_poller)

lemma call_success_pframe: "nts_of p w \<Longrightarrow> pframe p w (call_success cb m w)"
  by (cases cb) (auto simp: pframe_def call_success_def retry_def intro!: nts_upd_poller)

lemma call_error_pframe: "nts_of p w \<Longrightarrow> pframe p w (call_error cb w)"
  by (simp add: pframe_def nts_of_def spawn_calls_def)

lemma probe_callback_pframe:
  assumes "probe_callback c r w = Inr w'" "nts_of p w"
  shows "pframe p w w'"
proof (cases r)
  case ProbeErr
  let ?w1 = "act (CallError c) (upd_closure c (\<lambda>k. k\<lparr>initialCallbackSent := True\<rparr>) (upd_closure c (\<lambda>k. k\<lparr>probing := False\<rparr>) w))"
  have w': "w' = call_error (errorCallback (closures (upd_closure c (\<lambda>k. k\<lparr>initialCallbackSent := True\<rparr>) (upd_closure c (\<lambda>k. k\<lparr>probing := False\<rparr>) w)) ! c)) ?w1"
    using assms ProbeErr by (simp add: probe_callback_def Let_def)
  have "pframe p w ?w1" using assms(2) by (simp add: pframe_def sc_upd_closure)
  moreover have "pframe p ?w1 w'" unfolding w' using assms(2) by (intro call_error_pframe) simp
  ultimately show ?thesis by (rule pframe_trans)
next
  case (ProbeOk d)
  then show ?thesis using assms
    by (auto simp: probe_callback_def Let_def pframe_def sc_upd_closure split: option.splits sum.splits)
qed

lemma on_error_pframe: "nts_of p w \<Longrightarrow> pframe p w (on_error c w)"
proof (cases "initialCallbackSent (closures w ! c)")
  case True
  then show "nts_of p w \<Longrightarrow> ?thesis" by (simp add: on_error_def pframe_def)
next
  case False
  assume n: "nts_of p w"
  let ?w1 = "act (CallError c) (upd_closure c (\<lambda>k. k\<lparr>initialCallbackSent := True\<rparr>) w)"
  have "pframe p w ?w1" using n by (simp add: pframe_def sc_upd_closure)
  moreover have "pframe p ?w1 (call_error (errorCallback (closures (upd_closure c (\<lambda>k. k\<lparr>initialCallbackSent := True\<rparr>) w) ! c)) ?w1)"
    using n by (intro call_error_pframe) simp
  ultimately show ?thesis using False by (simp add: on_error_def Let_def pframe_trans)
qed

lemma on_start_pframe: "nts_of p w \<Longrightarrow> pframe p w (on_start c w)"
proof (cases "initialCallbackSent (closures w ! c)")
  case True
  then show "nts_of p w \<Longrightarrow> ?thesis" by (simp add: on_start_def pframe_def)
next
  case False
  assume n: "nts_of p w"
  let ?w0 = "upd_closure c (\<lambda>k. k\<lparr>initialCallbackSent := True\<rparr>) w"
  let ?w1 = "act (CallSuccess c (placeholderM3U8 (closures ?w0 ! c))) ?w0"
  have "pframe p w ?w1" using n by (simp add: pframe_def sc_upd_closure)
  moreover have "pframe p ?w1 (call_success (successCallback (closures ?w0 ! c)) (placeholderM3U8 (closures ?w0 ! c)) ?w1)"
    using n by (intro call_success_pframe) simp
  ultimately show ?thesis using False by (simp add: on_start_def Let_def pframe_trans)
qed

lemma on_end_pframe: "nts_of p w \<Longrightarrow> pframe p w (on_end c w)"
  by (simp add: on_end_def kill_pframe)

lemma nts_spawn [simp]: "nts_of p (spawn a s e w) = nts_of p w"
  by (simp add: nts_of_def spawn_proj)

lemma poll_pframe:
  assumes "poll p' w = Inr w'" "nts_of p w"
  shows "pframe p w w'"
proof (cases "p' = p")
  case True
  then have n: "newTranscoderStarted (pollers w ! p')" using assms(2) by (simp add: nts_of_def)
  show ?thesis using assms n
    by (auto simp: poll_def Let_def pframe_def poller_errorCallback_def poller_successCallback_def
          retry_def intro!: nts_upd_poller split: if_splits)
next
  case False
  have u: "nts_of p (upd_poller p' h w0)" if "nts_of p w0" for h w0
    using that False by (auto simp: nts_of_def)
  show ?thesis using assms False
    by (auto simp: poll_def Let_def pframe_def poller_errorCallback_def poller_successCallback_def
          retry_def sc_spawn u split: if_splits option.splits)
qed

lemma new_poller_pframe:
  assumes "new_poller r fl w = Inr w'" "nts_of p w"
  shows "pframe p w w'"
proof (cases fl)
  case None
  then show ?thesis using assms by (simp add: new_poller_def)
next
  case (Some name)
  let ?w1 = "w\<lparr>pollers := pollers w @
                      [\<lparr>filename = name, streamIdentifierP = take 8 name,
                        segmentIndex = index_of_name name, streamObject = map_of (streams w) (take 8 name),
                        maxTries = (if hlsSegmentDuration * 2 < 10 then 10 else hlsSegmentDuration * 2),
                        currentTry = 0, transcodeStarting = False, newTranscoderStarted = False,
                        res = r, timeouts = 0\<rparr>]\<rparr>"
  let ?w2 = "(case map_of (streams w) (take 8 name) of
                       None \<Rightarrow> ?w1
                     | Some a \<Rightarrow> upd_stream a (\<lambda>s. s\<lparr>lastActivity := now ?w1\<rparr>) ?w1)"
  have p: "poll (length (pollers w)) ?w2 = Inr w'"
    using assms(1) unfolding Some new_poller_def Let_def by simp
  have n2: "nts_of p ?w2"
    by (cases "map_of (streams w) (take 8 name)"; simp only: option.case nts_prims; rule nts_append[OF assms(2)])
  have s2: "spawn_calls p ?w2 = spawn_calls p w" by (simp split: option.splits)
  from poll_pframe[OF p n2] s2 show ?thesis by (simp add: pframe_def)
qed

lemma handle_request_pframe:
  assumes "handle_request req fresh w = Inr w'" "nts_of p w"
  shows "pframe p w w'"
proof (cases "req_method req \<noteq> ''OPTIONS'' \<and> uri req \<noteq> ''/watch.m3u8'' \<and> uri req = ''/segment.ts''")
  case True
  then have "new_poller (requests w) (query_file req) (w\<lparr>requests := Suc (requests w)\<rparr>) = Inr w'"
    using assms(1) by (simp add: handle_request_def Let_def)
  from new_poller_pframe[OF this, of p] assms(2) show ?thesis by (simp add: pframe_def)
next
  case False
  then show ?thesis using assms
    by (auto simp: handle_request_def Let_def pframe_def sc_spawn nts_append
             split: if_splits option.splits)
qed

lemma step_pframe:
  assumes "step e w = Inr w'" "nts_of p w"
  shows "pframe p w w'"
proof (cases e)
  case (Request req fresh)
  then show ?thesis using assms handle_request_pframe by (simp add: step_def)
next
  case (ProbeDone c r)
  then show ?thesis using assms probe_callback_pframe pframe_refl by (auto simp: step_def split: if_splits)
next
  case (ProcError c)
  then show ?thesis using assms on_error_pframe pframe_refl by (auto simp: step_def split: if_splits)
next
  case (ProcStart c)
  then show ?thesis using assms on_start_pframe pframe_refl by (auto simp: step_def split: if_splits)
next
  case (ProcEnd c)
  then show ?thesis using assms on_end_pframe pframe_refl by (auto simp: step_def split: if_splits)
next
  case (IntervalTick a)
  then show ?thesis using assms checkDestruct_pframe pframe_refl by (auto simp: step_def split: if_splits)
next
  case (TimeoutFires p')
  show ?thesis
  proof (cases "p' < length (pollers w) \<and> 0 < timeouts (pollers w ! p')")
    case True
    then have pl: "poll p' (upd_poller p' (\<lambda>q. q\<lparr>timeouts := timeouts q - 1\<rparr>) w) = Inr w'"
      using assms TimeoutFires by (simp add: step_def)
    have "nts_of p (upd_poller p' (\<lambda>q. q\<lparr>timeouts := timeouts q - 1\<rparr>) w)"
      using assms(2) by (intro nts_upd_poller) simp_all
    from poll_pframe[OF pl this] show ?thesis by (simp add: pframe_def)
  next
    case False
    then show ?thesis using assms TimeoutFires pframe_refl by (auto simp: step_def)
  qed
next
  case (TimePasses ms)
  then show ?thesis using assms by (auto simp: step_def pframe_def)
next
  case (FileWritten name content)
  then show ?thesis using assms by (auto simp: step_def pframe_def)
next
  case (UnlinkDone name ok)
  then show ?thesis using assms
    by (auto simp: step_def pframe_def Let_def act_def nts_of_def spawn_calls_def split: if_splits)
qed

lemma run_pframe:
  assumes "run evs w = Inr w'" "nts_of p w"
  shows "pframe p w w'"
  using assms
proof (induction evs arbitrary: w)
  case Nil
  then show ?case by (simp add: pframe_refl)
next
  case (Cons e evs)
  from run_Cons[OF Cons.prems(1)] obtain wm where s: "step e w = Inr wm" and r: "run evs wm = Inr w'" by auto
  from step_pframe[OF s Cons.prems(2)] have f: "pframe p w wm" .
  then have "nts_of p wm" by (simp add: pframe_def)
  from pframe_trans[OF f Cons.IH[OF r this]] show ?case .
qed

lemma streamUrl_upd [simp]:
  "streamUrl y = streamUrl (xs ! a) \<Longrightarrow> streamUrl (xs[a := y] ! aa) = streamUrl (xs ! aa)"
  by (cases "a = aa"; cases "a < length xs") (auto simp: list_update_beyond)

lemma spawn_trace:
  "trace (spawn a s e w) = trace w @ [Ffprobe (length (closures w)) (streamUrl (heap w ! a))]"
  by (simp add: spawn_def Let_def startSelfDestructor_def)

lemma poll_restart:
  assumes p: "p < length (pollers w)" and so: "streamObject (pollers w ! p) = Some a"
    and a: "a < length (heap w)" and pr: "process (heap w ! a) = Some h"
    and l1: "\<not> transcodeStarting (pollers w ! p)" and l2: "\<not> newTranscoderStarted (pollers w ! p)"
    and tr: "\<not> maxTries (pollers w ! p) < of_int (currentTry (pollers w ! p))"
    and nofile: "\<not> existsSync (files w) (filename (pollers w ! p))"
    and idx: "segmentIndex (pollers w ! p) = Num i"
    and cur: "currentTranscodingIndex (files w) (streamIdentifierP (pollers w ! p)) = Num j"
    and gap: "hlsSegmentMaxGap \<le> num_sub i j"
  shows "\<exists>w1. poll p w = Inr w1 \<and>
           trace w1 = trace w @ [LogPolling p, ProcessKill h, Ffprobe (length (closures w)) (streamUrl (heap w ! a))] \<and>
           seekToSegment (heap w1 ! a) = Num i \<and>
           selfDestructTimer (heap w1 ! a) = Some 5000 \<and>
           spawn_calls p w1 = Suc (spawn_calls p w) \<and> nts_of p w1"
  using assms
  by (simp add: poll_def Let_def shouldStartTranscode_def gap_too_big_def sc_spawn
        spawn_trace spawn_heap startSelfDestructor_def)
     (simp add: nts_of_def)

lemma restart_once:
  assumes p: "p < length (pollers w)" and so: "streamObject (pollers w ! p) = Some a"
    and a: "a < length (heap w)" and pr: "process (heap w ! a) = Some h"
    and l1: "\<not> transcodeStarting (pollers w ! p)" and l2: "\<not> newTranscoderStarted (pollers w ! p)"
    and tr: "\<not> maxTries (pollers w ! p) < of_int (currentTry (pollers w ! p))"
    and nofile: "\<not> existsSync (files w) (filename (pollers w ! p))"
    and idx: "segmentIndex (pollers w ! p) = Num i"
    and cur: "currentTranscodingIndex (files w) (streamIdentifierP (pollers w ! p)) = Num j"
    and gap: "hlsSegmentMaxGap \<le> num_sub i j"
  shows "\<exists>w1. poll p w = Inr w1 \<and>
           trace w1 = trace w @ [LogPolling p, ProcessKill h, Ffprobe (length (closures w)) (streamUrl (heap w ! a))] \<and>
           seekToSegment (heap w1 ! a) = Num i \<and>
           spawn_calls p w1 = Suc (spawn_calls p w) \<and>
           (\<forall>evs w2. run evs w1 = Inr w2 \<longrightarrow> spawn_calls p w2 = Suc (spawn_calls p w))"
proof -
  from poll_restart[OF assms] obtain w1 where w1: "poll p w = Inr w1"
    "trace w1 = trace w @ [LogPolling p, ProcessKill h, Ffprobe (length (closures w)) (streamUrl (heap w ! a))]"
    "seekToSegment (heap w1 ! a) = Num i" "spawn_calls p w1 = Suc (spawn_calls p w)" "nts_of p w1"
    by blast
  have "spawn_calls p w2 = Suc (spawn_calls p w)" if "run evs w1 = Inr w2" for evs w2
    using run_pframe[OF that w1(5)] w1(4) by (simp add: pframe_def)
  then show ?thesis using w1 by blast
qed

section \<open>Segment names\<close>

lemma lt10_cases: "k < 10 \<Longrightarrow> k \<in> {0, 1, 2, 3, 4, 5, 6, 7, 8, 9 :: nat}"
  by simp arith

lemma digit_char_props:
  assumes "n < 10"
  shows "is_digit (digit_char n)" "digit_value (digit_char n) = int n"
    "\<not> is_space (digit_char n)" "digit_char n \<noteq> CHR ''.''" "digit_char n \<noteq> CHR ''-''"
    "digit_char n \<noteq> CHR ''+''"
  using lt10_cases[OF assms]
  by (auto simp: digit_char_def is_digit_def digit_value_def is_space_def)

lemma show_nat_digits: "\<forall>c \<in> set (show_nat n). is_digit c \<and> \<not> is_space c \<and> c \<noteq> CHR ''.'' \<and> c \<noteq> CHR ''-'' \<and> c \<noteq> CHR ''+''"
proof (induction n rule: show_nat.induct)
  case (1 n)
  show ?case
  proof (cases "n < 10")
    case True
    then show ?thesis using digit_char_props[OF True] by (subst show_nat.simps) simp
  next
    case False
    have "n mod 10 < 10" by simp
    from digit_char_props[OF this] 1[OF False] False show ?thesis
      by (subst show_nat.simps) auto
  qed
qed

lemma show_nat_nonempty: "show_nat n \<noteq> []"
  by (subst show_nat.simps) simp

lemma digits_value_snoc: "digits_value (xs @ [c]) = 10 * digits_value xs + digit_value c"
  by (simp add: digits_value_def)

lemma digits_value_show_nat: "digits_value (show_nat n) = int n"
proof (induction n rule: show_nat.induct)
  case (1 n)
  show ?case
  proof (cases "n < 10")
    case True
    then show ?thesis using digit_char_props(2)[OF True]
      by (subst show_nat.simps) (simp add: digits_value_def)
  next
    case False
    have m: "n mod 10 < 10" by simp
    have "digits_value (show_nat n) = 10 * digits_value (show_nat (n div 10)) + digit_value (digit_char (n mod 10))"
      using False by (subst show_nat.simps) (simp add: digits_value_snoc)
    also have "\<dots> = 10 * int (n div 10) + int (n mod 10)"
      using 1[OF False] digit_char_props(2)[OF m] by simp
    also have "\<dots> = int n" by (simp add: zdiv_int zmod_int)
    finally show ?thesis .
  qed
qed

lemma parseInt_show_nat:
  assumes "i \<le> 2 ^ 53"
  shows "parseInt (show_nat i) = Num (of_nat i)"
proof -
  obtain c cs where s: "show_nat i = c # cs" using show_nat_nonempty[of i] by (cases "show_nat i") auto
  have all: "\<forall>x \<in> set (c # cs). is_digit x \<and> \<not> is_space x \<and> x \<noteq> CHR ''.'' \<and> x \<noteq> CHR ''-'' \<and> x \<noteq> CHR ''+''"
    using show_nat_digits[of i] s by simp
  then have c: "is_digit c" "\<not> is_space c" "c \<noteq> CHR ''-''" "c \<noteq> CHR ''+''" by auto
  have tw: "takeWhile is_digit (c # cs) = c # cs" using all by (intro takeWhile_eq_all_conv[THEN iffD2]) auto
  have tw2: "takeWhile is_digit cs = cs" using all by (intro takeWhile_eq_all_conv[THEN iffD2]) auto
  have v: "digits_value (c # cs) = int i" using digits_value_show_nat[of i] s by simp
  have r: "round_double (of_nat i) = of_nat i" using is_double_round[OF is_double_of_nat[OF assms]] .
  show ?thesis unfolding s parseInt_def Let_def using c by (simp add: tw2 v r)
qed

lemma index_of_name_segment:
  assumes "length ident = 8" "i \<le> 2 ^ 53"
  shows "index_of_name (ident @ show_nat i @ ''.ts'') = Num (of_nat i)"
proof -
  have "\<forall>x \<in> set (show_nat i). x \<noteq> CHR ''.''" using show_nat_digits[of i] by auto
  then have "takeWhile (\<lambda>c. c \<noteq> CHR ''.'') (show_nat i @ ''.ts'') = show_nat i"
    by (simp add: takeWhile_append2)
  then show ?thesis using assms parseInt_show_nat[OF assms(2)] by (simp add: index_of_name_def)
qed

section \<open>Evaluation\<close>

lemmas model_defs = step_def handle_request_def new_poller_def poll_def shouldStartTranscode_def
  on_end_def on_start_def on_error_def probe_callback_def spawn_def call_error_def call_success_def
  poller_successCallback_def poller_errorCallback_def retry_def checkDestruct_def startSelfDestructor_def
  kill_def call_finish_def removeFiles_def delete_key_def act_def upd_poller_def upd_closure_def upd_stream_def
  gap_too_big_def currentTranscodingIndex_def last_sorted_def glob_ts_def glob_prefix_def
  index_of_name_def parseInt_def is_space_def digits_value_def digit_value_def is_digit_def
  existsSync_def writeFileSync_def write_file_def unlink_file_def valid_filename_def maxProcess_def hlsSegmentMaxGap_def hlsSegmentDuration_def
  selfDestructDuration_def match_here_def new_Stream_def state_of_def

lemma generateM3U8_60:
  assumes "length ident \<le> 64" "valid_filename (ident @ ''_master.m3u8'')"
  shows "generateM3U8 60 ident fs =
     Inr (spec_manifest 60 ident, write_file (ident @ ''_master.m3u8'') (spec_manifest 60 ident) fs)"
proof -
  have "is_double (of_nat 60)" by (rule is_double_of_nat) simp
  then have d: "is_double 60" by simp
  have "length (spec_manifest 60 ident) \<le> max_string_length"
    using assms(1) by (intro spec_manifest_length_le) simp_all
  then show ?thesis using generateM3U8_exact[OF d, of ident fs] assms(2) by simp
qed

lemma playing_eq:
  "playing =
    \<lparr>streams = [(''abcdefgh'', 0)],
     heap = [\<lparr>streamUrl = ''rtsp://cam'', streamIdentifier = ''abcdefgh'', seekToSegment = Num 0,
              process = Some 0, lastActivity = 0, selfDestructTimer = Some 5000,
              finishCallback = DeleteStream ''abcdefgh''\<rparr>],
     closures = [\<lparr>this = 0, initialCallbackSent = True, successCallback = WatchSuccess 0,
                  errorCallback = WatchError 0 0 ''abcdefgh'',
                  placeholderM3U8 = spec_manifest 60 ''abcdefgh'', probing = False, running = True\<rparr>],
     pollers = [],
     files = [(''abcdefgh_master.m3u8'', spec_manifest 60 ''abcdefgh'')], unlinks = [],
     now = 0, requests = 1,
     trace = [Ffprobe 0 ''rtsp://cam'', FfmpegRun 0 (Num 0),
              CallSuccess 0 (spec_manifest 60 ''abcdefgh''),
              Respond 0 200 (spec_manifest 60 ''abcdefgh'')]\<rparr>"
  by (simp add: playing_def init_def watch_req_def model_defs generateM3U8_60 Let_def)

lemma round_double_numeral [simp]:
  "numeral k \<le> (2 ^ 53 :: nat) \<Longrightarrow> round_double (numeral k) = numeral k"
  using is_double_round[OF is_double_of_nat[of "numeral k"]] by simp

lemma round_double_01 [simp]: "round_double 0 = 0" "round_double 1 = 1"
  using is_double_round[OF is_double_of_nat[of 0]] is_double_round[OF is_double_of_nat[of 1]] by simp_all

lemma one_stream_eq:
  "one_stream =
     \<lparr>streams = [(''abcdefgh'', 0)],
      heap = [\<lparr>streamUrl = ''rtsp://cam'', streamIdentifier = ''abcdefgh'', seekToSegment = Num 0,
               process = None, lastActivity = 0, selfDestructTimer = None,
               finishCallback = DeleteStream ''abcdefgh''\<rparr>],
      closures = [], pollers = [], files = [], unlinks = [], now = 0, requests = 1, trace = []\<rparr>"
  by (simp add: one_stream_def init_def new_Stream_def)

lemma one_stream_spawn:
  "spawn 0 (WatchSuccess 0) (WatchError 0 0 ''abcdefgh'') one_stream =
     \<lparr>streams = [(''abcdefgh'', 0)],
      heap = [\<lparr>streamUrl = ''rtsp://cam'', streamIdentifier = ''abcdefgh'', seekToSegment = Num 0,
               process = None, lastActivity = 0, selfDestructTimer = Some 5000,
               finishCallback = DeleteStream ''abcdefgh''\<rparr>],
      closures = [\<lparr>this = 0, initialCallbackSent = False, successCallback = WatchSuccess 0,
                   errorCallback = WatchError 0 0 ''abcdefgh'', placeholderM3U8 = [],
                   probing = True, running = False\<rparr>],
      pollers = [], files = [], unlinks = [], now = 0, requests = 1, trace = [Ffprobe 0 ''rtsp://cam'']\<rparr>"
  by (simp add: one_stream_eq spawn_def startSelfDestructor_def prims)

section \<open>The self-destruct ticker\<close>

lemma tframe_refl [simp]: "tframe a w w"
  by (simp add: tframe_def)

lemma finish_calls_append:
  "trace w' = trace w @ xs \<Longrightarrow> finish_calls a w \<le> finish_calls a w'"
  by (simp add: finish_calls_def)

lemma tframe_trans:
  assumes "tframe a w w'" "tframe a w' w''"
  shows "tframe a w w''"
proof -
  from assms(1) obtain xs where t1: "trace w' = trace w @ xs" unfolding tframe_def by blast
  from assms(2) obtain ys where t2: "trace w'' = trace w' @ ys" unfolding tframe_def by blast
  have m: "finish_calls a w \<le> finish_calls a w'" "finish_calls a w' \<le> finish_calls a w''"
    using t1 t2 finish_calls_append by blast+
  have tr: "\<exists>zs. trace w'' = trace w @ zs" using t1 t2 by simp
  have len: "length (heap w) \<le> length (heap w')" "length (heap w') \<le> length (heap w'')"
    using assms unfolding tframe_def by blast+
  have "selfDestructTimer (heap w'' ! a) = Some 5000 \<or> finish_calls a w < finish_calls a w''"
    if h: "a < length (heap w)" "selfDestructTimer (heap w ! a) = Some 5000"
  proof -
    from assms(1) h have "selfDestructTimer (heap w' ! a) = Some 5000 \<or> finish_calls a w < finish_calls a w'"
      unfolding tframe_def by blast
    then show ?thesis
    proof
      assume s: "selfDestructTimer (heap w' ! a) = Some 5000"
      have "a < length (heap w')" using h(1) len(1) by simp
      with assms(2) s have "selfDestructTimer (heap w'' ! a) = Some 5000 \<or> finish_calls a w' < finish_calls a w''"
        unfolding tframe_def by blast
      then show ?thesis using m by auto
    next
      assume "finish_calls a w < finish_calls a w'"
      then show ?thesis using m by simp
    qed
  qed
  then show ?thesis unfolding tframe_def using tr len by auto
qed

lemma timer_upd [simp]:
  "selfDestructTimer y = selfDestructTimer (xs ! a) \<Longrightarrow>
     selfDestructTimer (xs[a := y] ! aa) = selfDestructTimer (xs ! aa)"
  by (cases "a = aa"; cases "a < length xs") (auto simp: list_update_beyond)

lemma fc_prims [simp]:
  "finish_calls a (upd_stream b f w) = finish_calls a w"
  "finish_calls a (upd_closure c g w) = finish_calls a w"
  "finish_calls a (upd_poller p h w) = finish_calls a w"
  "finish_calls a (act x w) = finish_calls a w + (if x = Finish a then 1 else 0)"
  "finish_calls a (w\<lparr>streams := ss\<rparr>) = finish_calls a w"
  "finish_calls a (w\<lparr>heap := hh\<rparr>) = finish_calls a w"
  "finish_calls a (w\<lparr>closures := cc\<rparr>) = finish_calls a w"
  "finish_calls a (w\<lparr>pollers := pp\<rparr>) = finish_calls a w"
  "finish_calls a (w\<lparr>files := ff\<rparr>) = finish_calls a w"
  "finish_calls a (w\<lparr>now := nn\<rparr>) = finish_calls a w"
  "finish_calls a (w\<lparr>requests := rr\<rparr>) = finish_calls a w"
  by (simp_all add: finish_calls_def)

lemma kill_tframe: "tframe a w (kill b r w)"
proof (cases "b = a")
  case True
  then show ?thesis by (auto simp: tframe_def kill_eq finish_calls_def split: option.splits)
next
  case False
  then show ?thesis by (auto simp: tframe_def kill_eq finish_calls_def split: option.splits)
qed

lemma checkDestruct_tframe: "tframe a w (checkDestruct b w)"
  by (simp add: checkDestruct_def kill_tframe)

lemma retry_tframe: "tframe a w (retry p w)"
  by (simp add: tframe_def retry_def)

lemma call_success_tframe: "tframe a w (call_success cb m w)"
  by (cases cb) (auto simp: tframe_def call_success_def retry_def)

lemma streams_upd_tframe: "tframe a w w' \<Longrightarrow> tframe a w (w'\<lparr>streams := ss\<rparr>)"
  by (simp add: tframe_def finish_calls_def)

lemma act_tframe: "tframe a w (act x w)"
  by (simp add: tframe_def)

lemma call_error_tframe: "tframe a w (call_error cb w)"
proof (cases cb)
  case (WatchError r b ident)
  have 1: "tframe a w (kill b False w)" by (rule kill_tframe)
  have 2: "tframe a (kill b False w) ((kill b False w)\<lparr>streams := delete_key ident (streams (kill b False w))\<rparr>)"
    by (rule streams_upd_tframe) simp
  have 3: "tframe a ((kill b False w)\<lparr>streams := delete_key ident (streams (kill b False w))\<rparr>)
     (act (Respond r 500 []) ((kill b False w)\<lparr>streams := delete_key ident (streams (kill b False w))\<rparr>))"
    by (rule act_tframe)
  from tframe_trans[OF tframe_trans[OF 1 2] 3] show ?thesis using WatchError
    by (simp add: call_error_def Let_def)
next
  case (PollerError p)
  then show ?thesis by (simp add: call_error_def poller_errorCallback_def act_tframe)
qed

lemma spawn_tframe: "tframe a w (spawn b s e w)"
  by (cases "b = a")
     (auto simp: tframe_def spawn_trace spawn_heap startSelfDestructor_def finish_calls_def)

lemma same_heap_tframe:
  "heap w' = heap w \<Longrightarrow> trace w' = trace w \<Longrightarrow> tframe a w w'"
  by (simp add: tframe_def finish_calls_def)

lemma upd_closure_tframe: "tframe a w (upd_closure c g w)"
  by (simp add: tframe_def)

lemma upd_poller_tframe: "tframe a w (upd_poller p h w)"
  by (simp add: tframe_def)

lemma upd_stream_tframe:
  assumes "\<And>s. selfDestructTimer (f s) = selfDestructTimer s"
  shows "tframe a w (upd_stream b f w)"
  using assms by (simp add: tframe_def)

lemma probe_callback_tframe:
  assumes "probe_callback c r w = Inr w'"
  shows "tframe a w w'"
proof (cases r)
  case ProbeErr
  let ?w1 = "upd_closure c (\<lambda>k. k\<lparr>initialCallbackSent := True\<rparr>) (upd_closure c (\<lambda>k. k\<lparr>probing := False\<rparr>) w)"
  have "tframe a w (act (CallError c) ?w1)" by (simp add: tframe_def)
  from tframe_trans[OF this call_error_tframe] show ?thesis using assms ProbeErr
    by (auto simp: probe_callback_def Let_def)
next
  case (ProbeOk d)
  then show ?thesis using assms
    by (auto simp: probe_callback_def Let_def tframe_def finish_calls_def split: option.splits sum.splits)
qed

lemma on_error_tframe: "tframe a w (on_error c w)"
proof (cases "initialCallbackSent (closures w ! c)")
  case True
  then show ?thesis by (simp add: on_error_def upd_stream_tframe)
next
  case False
  have "tframe a w (act (CallError c) (upd_closure c (\<lambda>k. k\<lparr>initialCallbackSent := True\<rparr>) w))"
    by (simp add: tframe_def)
  from tframe_trans[OF this call_error_tframe] show ?thesis using False
    by (simp add: on_error_def Let_def)
qed

lemma on_start_tframe: "tframe a w (on_start c w)"
proof (cases "initialCallbackSent (closures w ! c)")
  case True
  then show ?thesis by (simp add: on_start_def)
next
  case False
  have "tframe a w (act (CallSuccess c (placeholderM3U8 (closures (upd_closure c (\<lambda>k. k\<lparr>initialCallbackSent := True\<rparr>) w) ! c)))
      (upd_closure c (\<lambda>k. k\<lparr>initialCallbackSent := True\<rparr>) w))"
    by (simp add: tframe_def)
  from tframe_trans[OF this call_success_tframe] show ?thesis using False
    by (simp add: on_start_def Let_def)
qed

lemma on_end_tframe: "tframe a w (on_end c w)"
  by (simp add: on_end_def kill_tframe)

lemma restart_tframe:
  "tframe a w (spawn b s e (upd_stream b (\<lambda>s. s\<lparr>selfDestructTimer := None, seekToSegment := i\<rparr>) w))"
  by (cases "b = a"; cases "b < length (heap w)")
     (auto simp: tframe_def spawn_trace spawn_heap startSelfDestructor_def finish_calls_def list_update_beyond)

lemma poll_tframe:
  assumes "poll p w = Inr w'"
  shows "tframe a w w'"
proof -
  let ?q = "pollers w ! p"
  let ?w0 = "act (LogPolling p) w"
  show ?thesis
  proof (cases "maxTries ?q < of_int (currentTry ?q)")
    case True
    then have "w' = poller_errorCallback p (act (LogMaxTry p) w)" using assms by (simp add: poll_def Let_def)
    then show ?thesis by (simp add: tframe_def poller_errorCallback_def)
  next
    case nomax: False
    show ?thesis
    proof (cases "existsSync (files ?w0) (filename ?q)")
      case True
      then have "w' = poller_successCallback p ?w0" using assms nomax by (simp add: poll_def Let_def)
      then show ?thesis by (simp add: tframe_def poller_successCallback_def)
    next
      case nofile: False
      show ?thesis
      proof (cases "shouldStartTranscode ?q ?w0 \<and> \<not> newTranscoderStarted ?q")
        case False
        then have "w' = retry p ?w0" using assms nomax nofile by (auto simp: poll_def Let_def)
        then show ?thesis by (simp add: tframe_def retry_def)
      next
        case True
        let ?w1 = "upd_poller p (\<lambda>q. q\<lparr>transcodeStarting := True, newTranscoderStarted := True\<rparr>) ?w0"
        from True assms nomax nofile obtain b where so: "streamObject ?q = Some b"
          by (cases "streamObject ?q") (auto simp: poll_def Let_def)
        have base: "tframe a w ?w1" by (simp add: tframe_def)
        show ?thesis
        proof (cases "process (heap w ! b)")
          case None
          then have "w' = spawn b (PollerSuccess p) (PollerError p) ?w1"
            using True assms nomax nofile so by (auto simp: poll_def Let_def)
          then show ?thesis using tframe_trans[OF base spawn_tframe] by simp
        next
          case (Some c)
          let ?w2 = "act (ProcessKill c) ?w1"
          have w': "w' = spawn b (PollerSuccess p) (PollerError p)
              (upd_stream b (\<lambda>s. s\<lparr>selfDestructTimer := None, seekToSegment := segmentIndex ?q\<rparr>) ?w2)"
            using True assms nomax nofile so Some by (auto simp: poll_def Let_def)
          have "tframe a w ?w2" by (simp add: tframe_def)
          from tframe_trans[OF this restart_tframe] show ?thesis unfolding w' .
        qed
      qed
    qed
  qed
qed

lemma new_poller_tframe:
  assumes "new_poller r fl w = Inr w'"
  shows "tframe a w w'"
proof (cases fl)
  case None
  then show ?thesis using assms by (simp add: new_poller_def)
next
  case (Some name)
  let ?w1 = "w\<lparr>pollers := pollers w @
                      [\<lparr>filename = name, streamIdentifierP = take 8 name,
                        segmentIndex = index_of_name name, streamObject = map_of (streams w) (take 8 name),
                        maxTries = (if hlsSegmentDuration * 2 < 10 then 10 else hlsSegmentDuration * 2),
                        currentTry = 0, transcodeStarting = False, newTranscoderStarted = False,
                        res = r, timeouts = 0\<rparr>]\<rparr>"
  let ?w2 = "(case map_of (streams w) (take 8 name) of
                       None \<Rightarrow> ?w1
                     | Some a \<Rightarrow> upd_stream a (\<lambda>s. s\<lparr>lastActivity := now ?w1\<rparr>) ?w1)"
  have p: "poll (length (pollers w)) ?w2 = Inr w'"
    using assms(1) unfolding Some new_poller_def Let_def by simp
  have "tframe a w ?w2" by (auto simp: tframe_def finish_calls_def split: option.splits)
  from tframe_trans[OF this poll_tframe[OF p]] show ?thesis .
qed

lemma handle_request_tframe:
  assumes "handle_request req fresh w = Inr w'"
  shows "tframe a w w'"
proof (cases "req_method req \<noteq> ''OPTIONS'' \<and> uri req \<noteq> ''/watch.m3u8'' \<and> uri req = ''/segment.ts''")
  case True
  then have "new_poller (requests w) (query_file req) (w\<lparr>requests := Suc (requests w)\<rparr>) = Inr w'"
    using assms(1) by (simp add: handle_request_def Let_def)
  from new_poller_tframe[OF this, of a] show ?thesis by (simp add: tframe_def)
next
  case False
  let ?w0 = "w\<lparr>requests := Suc (requests w)\<rparr>"
  have r: "tframe a w (act x ?w0)" for x by (simp add: tframe_def)
  have r0: "tframe a w ?w0" by (simp add: tframe_def)
  have s: "tframe a w (spawn (length (heap w)) sc ec
       (?w0\<lparr>heap := heap ?w0 @ [st], streams := ss\<rparr>))" for sc ec st ss
  proof -
    have "tframe a w (?w0\<lparr>heap := heap ?w0 @ [st], streams := ss\<rparr>)"
      by (simp add: tframe_def nth_append)
    from tframe_trans[OF this spawn_tframe] show ?thesis .
  qed
  show ?thesis using False assms r r0 s
    by (auto simp: handle_request_def Let_def split: if_splits option.splits)
qed

lemma step_tframe:
  assumes "step e w = Inr w'"
  shows "tframe a w w'"
proof (cases e)
  case (Request req fresh)
  then show ?thesis using assms handle_request_tframe by (simp add: step_def)
next
  case (ProbeDone c r)
  then show ?thesis using assms probe_callback_tframe by (auto simp: step_def split: if_splits)
next
  case (ProcError c)
  then show ?thesis using assms on_error_tframe by (auto simp: step_def split: if_splits)
next
  case (ProcStart c)
  then show ?thesis using assms on_start_tframe by (auto simp: step_def split: if_splits)
next
  case (ProcEnd c)
  then show ?thesis using assms on_end_tframe by (auto simp: step_def split: if_splits)
next
  case (IntervalTick b)
  then show ?thesis using assms checkDestruct_tframe by (auto simp: step_def split: if_splits)
next
  case (TimeoutFires p)
  show ?thesis
  proof (cases "p < length (pollers w) \<and> 0 < timeouts (pollers w ! p)")
    case True
    then have "poll p (upd_poller p (\<lambda>q. q\<lparr>timeouts := timeouts q - 1\<rparr>) w) = Inr w'"
      using assms TimeoutFires by (simp add: step_def)
    from tframe_trans[OF upd_poller_tframe poll_tframe[OF this]] show ?thesis .
  next
    case False
    then show ?thesis using assms TimeoutFires by (auto simp: step_def)
  qed
next
  case (TimePasses ms)
  then show ?thesis using assms by (auto simp: step_def tframe_def)
next
  case (FileWritten name content)
  then show ?thesis using assms by (auto simp: step_def tframe_def)
next
  case (UnlinkDone name ok)
  then show ?thesis using assms
    by (auto simp: step_def tframe_def Let_def act_def finish_calls_def split: if_splits)
qed

lemma run_tframe:
  assumes "run evs w = Inr w'"
  shows "tframe a w w'"
  using assms
proof (induction evs arbitrary: w)
  case Nil
  then show ?case by simp
next
  case (Cons e evs)
  from run_Cons[OF Cons.prems] obtain wm where s: "step e w = Inr wm" and r: "run evs wm = Inr w'" by auto
  from tframe_trans[OF step_tframe[OF s] Cons.IH[OF r]] show ?case .
qed

lemma ticker_until_kill:
  assumes "run evs (spawn a s e w) = Inr w'" "a < length (heap w)"
    and "selfDestructTimer (heap w ! a) = None \<or> selfDestructTimer (heap w ! a) = Some 5000"
    and "finish_calls a w' = finish_calls a w"
  shows "selfDestructTimer (heap w' ! a) = Some 5000"
proof -
  have t: "selfDestructTimer (heap (spawn a s e w) ! a) = Some 5000"
    using assms(2,3) by (auto simp: spawn_heap startSelfDestructor_def)
  have l: "a < length (heap (spawn a s e w))" using assms(2) by (simp add: spawn_proj)
  have f: "finish_calls a (spawn a s e w) = finish_calls a w" by (simp add: finish_calls_def spawn_trace)
  from run_tframe[OF assms(1), of a] t l f assms(4) show ?thesis by (simp add: tframe_def)
qed

section \<open>The claims\<close>






text \<open>
  Claim C2.  A poller that is bound to a stream with a live transcoder, has neither latch
  set and finds the requested index \<open>i\<close> at least \<open>hlsSegmentMaxGap\<close> beyond the index \<open>j\<close>
  of the gap analysis, restarts the transcoder: \<open>poll\<close> kills the running command, sets
  \<open>seekToSegment\<close> to \<open>i\<close> and calls \<open>spawn\<close>; whatever events follow, this poller never
  calls \<open>spawn\<close> again.
\<close>

theorem poller_restarts_once:
  assumes "p < length (pollers w)" and "streamObject (pollers w ! p) = Some a"
    and "a < length (heap w)" and "process (heap w ! a) = Some h"
    and "\<not> transcodeStarting (pollers w ! p)" and "\<not> newTranscoderStarted (pollers w ! p)"
    and "\<not> maxTries (pollers w ! p) < of_int (currentTry (pollers w ! p))"
    and "\<not> existsSync (files w) (filename (pollers w ! p))"
    and "segmentIndex (pollers w ! p) = Num i"
    and "currentTranscodingIndex (files w) (streamIdentifierP (pollers w ! p)) = Num j"
    and "hlsSegmentMaxGap \<le> num_sub i j"
  shows "\<exists>w1. poll p w = Inr w1 \<and>
           trace w1 = trace w @ [LogPolling p, ProcessKill h,
                                 Ffprobe (length (closures w)) (streamUrl (heap w ! a))] \<and>
           seekToSegment (heap w1 ! a) = Num i \<and>
           spawn_calls p w1 = Suc (spawn_calls p w) \<and>
           (\<forall>evs w2. run evs w1 = Inr w2 \<longrightarrow> spawn_calls p w2 = Suc (spawn_calls p w))"
  using assms by (rule restart_once)

lemma seek_world_eq:
  "seek_world =
    \<lparr>streams = [(''abcdefgh'', 0)],
     heap = [\<lparr>streamUrl = ''rtsp://cam'', streamIdentifier = ''abcdefgh'', seekToSegment = Num 0,
              process = Some 0, lastActivity = 0, selfDestructTimer = Some 5000,
              finishCallback = DeleteStream ''abcdefgh''\<rparr>],
     closures = [\<lparr>this = 0, initialCallbackSent = True, successCallback = WatchSuccess 0,
                  errorCallback = WatchError 0 0 ''abcdefgh'',
                  placeholderM3U8 = spec_manifest 60 ''abcdefgh'', probing = False, running = True\<rparr>],
     pollers = [\<lparr>filename = ''abcdefgh10.ts'', streamIdentifierP = ''abcdefgh'',
                    segmentIndex = Num 10, streamObject = Some 0, maxTries = 10, currentTry = 0,
                    transcodeStarting = False, newTranscoderStarted = False, res = 1,
                    timeouts = 0\<rparr>],
     files = [(''abcdefgh.m3u8'',
                  ''abcdefgh0.ts'' @ [CHR 0x0A] @ ''abcdefgh1.ts'' @ [CHR 0x0A] @ ''abcdefgh2.ts'' @ [CHR 0x0A]),
                 (''abcdefgh0.ts'', []), (''abcdefgh1.ts'', []), (''abcdefgh2.ts'', []),
                 (''abcdefgh_master.m3u8'', spec_manifest 60 ''abcdefgh'')],
     unlinks = [], now = 0, requests = 2,
     trace = [Ffprobe 0 ''rtsp://cam'', FfmpegRun 0 (Num 0),
              CallSuccess 0 (spec_manifest 60 ''abcdefgh''),
              Respond 0 200 (spec_manifest 60 ''abcdefgh'')]\<rparr>"
  by (simp add: seek_world_def playing_eq)

lemma seek_world_index:
  "currentTranscodingIndex (files seek_world) ''abcdefgh'' = Num 2"
  by (simp add: seek_world_eq currentTranscodingIndex_def match_here_def is_digit_def
        parseInt_def is_space_def digits_value_def digit_value_def Let_def)

lemma seek_world_poll:
  "poll 0 seek_world = Inr (seek_world
     \<lparr>heap := [\<lparr>streamUrl = ''rtsp://cam'', streamIdentifier = ''abcdefgh'', seekToSegment = Num 10,
              process = Some 0, lastActivity = 0, selfDestructTimer = Some 5000,
              finishCallback = DeleteStream ''abcdefgh''\<rparr>],
       closures := closures seek_world @ [\<lparr>this = 0, initialCallbackSent = False,
                  successCallback = PollerSuccess 0, errorCallback = PollerError 0,
                  placeholderM3U8 = [], probing = True, running = False\<rparr>],
       pollers := [\<lparr>filename = ''abcdefgh10.ts'', streamIdentifierP = ''abcdefgh'',
                    segmentIndex = Num 10, streamObject = Some 0, maxTries = 10, currentTry = 0,
                    transcodeStarting = True, newTranscoderStarted = True, res = 1,
                    timeouts = 0\<rparr>],
       trace := trace seek_world @ [LogPolling 0, ProcessKill 0, Ffprobe 1 ''rtsp://cam'']\<rparr>)"
  by (simp add: seek_world_eq poll_def shouldStartTranscode_def gap_too_big_def num_sub_def
        hlsSegmentMaxGap_def Let_def existsSync_def spawn_def startSelfDestructor_def prims
        currentTranscodingIndex_def match_here_def is_digit_def
        parseInt_def is_space_def digits_value_def digit_value_def)

theorem poller_restarts_once_witness:
  "seekToSegment (heap (state_of (poll 0 seek_world)) ! 0) = Num 10 \<and>
   spawn_calls 0 seek_world = 0 \<and>
   spawn_calls 0 (state_of (run [ProbeDone 1 (ProbeOk 60), ProcStart 1, TimeoutFires 0, TimeoutFires 0]
                     (state_of (poll 0 seek_world)))) = 1"
proof -
  have h: "0 < length (pollers seek_world)" "streamObject (pollers seek_world ! 0) = Some 0"
    "0 < length (heap seek_world)" "process (heap seek_world ! 0) = Some 0"
    "\<not> transcodeStarting (pollers seek_world ! 0)" "\<not> newTranscoderStarted (pollers seek_world ! 0)"
    "\<not> maxTries (pollers seek_world ! 0) < of_int (currentTry (pollers seek_world ! 0))"
    "\<not> existsSync (files seek_world) (filename (pollers seek_world ! 0))"
    "segmentIndex (pollers seek_world ! 0) = Num 10"
    by (simp_all add: seek_world_eq existsSync_def)
  have c: "currentTranscodingIndex (files seek_world) (streamIdentifierP (pollers seek_world ! 0)) = Num 2"
    using seek_world_index by (simp add: seek_world_eq)
  have g: "hlsSegmentMaxGap \<le> num_sub 10 2" by (simp add: hlsSegmentMaxGap_def num_sub_def)
  from poller_restarts_once[OF h c g] obtain w1 where w1: "poll 0 seek_world = Inr w1"
    "seekToSegment (heap w1 ! 0) = Num 10"
    "\<forall>evs w2. run evs w1 = Inr w2 \<longrightarrow> spawn_calls 0 w2 = Suc (spawn_calls 0 seek_world)"
    by blast
  have s0: "spawn_calls 0 seek_world = 0" by (simp add: seek_world_eq spawn_calls_def)
  have st: "state_of (poll 0 seek_world) = w1" by (simp add: w1(1) state_of_def)
  have "\<exists>w2. run [ProbeDone 1 (ProbeOk 60), ProcStart 1, TimeoutFires 0, TimeoutFires 0] (state_of (poll 0 seek_world)) = Inr w2"
    by (simp add: seek_world_poll state_of_def)
       (simp add: seek_world_eq model_defs generateM3U8_60 Let_def num_sub_def)
  then obtain w2 where w2: "run [ProbeDone 1 (ProbeOk 60), ProcStart 1, TimeoutFires 0, TimeoutFires 0] w1 = Inr w2"
    unfolding st by blast
  from w1(3) w2 have "spawn_calls 0 w2 = Suc (spawn_calls 0 seek_world)" by blast
  then show ?thesis using w1(2) s0 w2 st by (simp add: state_of_def)
qed

text \<open>
  Claim C3.  Let \<open>c\<close> be the closure of a call \<open>spawn a s e\<close> on a stream of the heap.  Over
  every sequence of events that the server survives, closure \<open>c\<close> calls back at most once,
  counting \<open>successCallback\<close> and \<open>errorCallback\<close> together.  If its probe fails, the one
  callback is \<open>errorCallback\<close> and no transcoder is run for it.  If its probe reports a
  duration \<open>d\<close> and the first event of its command is an error, the one callback is
  \<open>errorCallback\<close>; if that first event is the start, the one callback is \<open>successCallback\<close>
  with the manifest that \<open>generateM3U8\<close> returned for \<open>d\<close> and the stream's identifier.
\<close>

theorem spawn_calls_back_once:
  assumes "a < length (heap w)" and "c = length (closures w)"
  shows "(\<forall>evs w'. run evs (spawn a s e w) = Inr w' \<longrightarrow>
            (\<exists>cbs. callbacks_of c w' = callbacks_of c w @ cbs \<and> length cbs \<le> 1)) \<and>
         (\<forall>evs evs' w'. (\<forall>r. ProbeDone c r \<notin> set evs) \<and>
              run (evs @ ProbeDone c ProbeErr # evs') (spawn a s e w) = Inr w' \<longrightarrow>
            callbacks_of c w' = callbacks_of c w @ [CallError c] \<and> runs_of c w' = runs_of c w) \<and>
         (\<forall>evs d evs' evs'' w'. (\<forall>r. ProbeDone c r \<notin> set evs) \<and>
              ProcError c \<notin> set evs' \<and> ProcStart c \<notin> set evs' \<and>
              run (evs @ ProbeDone c (ProbeOk d) # evs' @ ProcError c # evs'') (spawn a s e w) = Inr w' \<longrightarrow>
            callbacks_of c w' = callbacks_of c w @ [CallError c]) \<and>
         (\<forall>evs d evs' evs'' w'. (\<forall>r. ProbeDone c r \<notin> set evs) \<and>
              ProcError c \<notin> set evs' \<and> ProcStart c \<notin> set evs' \<and>
              run (evs @ ProbeDone c (ProbeOk d) # evs' @ ProcStart c # evs'') (spawn a s e w) = Inr w' \<longrightarrow>
            (\<exists>m fs fs'. generateM3U8 d (streamIdentifier (heap w ! a)) fs = Inr (m, fs') \<and>
               callbacks_of c w' = callbacks_of c w @ [CallSuccess c m]))"
proof (intro conjI allI impI)
  fix evs w' assume "run evs (spawn a s e w) = Inr w'"
  then show "\<exists>cbs. callbacks_of c w' = callbacks_of c w @ cbs \<and> length cbs \<le> 1"
    unfolding assms(2) by (rule callbacks_at_most_one)
next
  fix evs evs' w'
  assume h: "(\<forall>r. ProbeDone c r \<notin> set evs) \<and>
    run (evs @ ProbeDone c ProbeErr # evs') (spawn a s e w) = Inr w'"
  from probe_failure_case[OF conjunct2[OF h] assms(2) conjunct1[OF h]]
  show "callbacks_of c w' = callbacks_of c w @ [CallError c]" "runs_of c w' = runs_of c w"
    by simp_all
next
  fix evs d evs' evs'' w'
  assume h: "(\<forall>r. ProbeDone c r \<notin> set evs) \<and> ProcError c \<notin> set evs' \<and> ProcStart c \<notin> set evs' \<and>
    run (evs @ ProbeDone c (ProbeOk d) # evs' @ ProcError c # evs'') (spawn a s e w) = Inr w'"
  then show "callbacks_of c w' = callbacks_of c w @ [CallError c]"
    using error_first_case[of evs c d evs' evs'' a s e w w'] assms by blast
next
  fix evs d evs' evs'' w'
  assume h: "(\<forall>r. ProbeDone c r \<notin> set evs) \<and> ProcError c \<notin> set evs' \<and> ProcStart c \<notin> set evs' \<and>
    run (evs @ ProbeDone c (ProbeOk d) # evs' @ ProcStart c # evs'') (spawn a s e w) = Inr w'"
  then show "\<exists>m fs fs'. generateM3U8 d (streamIdentifier (heap w ! a)) fs = Inr (m, fs') \<and>
               callbacks_of c w' = callbacks_of c w @ [CallSuccess c m]"
    using start_first_case[of evs c d evs' evs'' a s e w w'] assms by blast
qed

lemma one_stream_probe_fails:
  "\<exists>w'. run ([] @ ProbeDone 0 ProbeErr # [ProcStart 0])
           (spawn 0 (WatchSuccess 0) (WatchError 0 0 ''abcdefgh'') one_stream) = Inr w'"
  unfolding one_stream_spawn by (simp add: model_defs Let_def)

lemma one_stream_error_first:
  "\<exists>w'. run ([] @ ProbeDone 0 (ProbeOk 60) # [] @ ProcError 0 # [ProcStart 0])
           (spawn 0 (WatchSuccess 0) (WatchError 0 0 ''abcdefgh'') one_stream) = Inr w'"
  unfolding one_stream_spawn by (simp add: model_defs generateM3U8_60 Let_def)

lemma one_stream_start_first:
  "\<exists>w'. run ([] @ ProbeDone 0 (ProbeOk 60) # [] @ ProcStart 0 # [ProcError 0, ProcStart 0])
           (spawn 0 (WatchSuccess 0) (WatchError 0 0 ''abcdefgh'') one_stream) = Inr w'"
  unfolding one_stream_spawn by (simp add: model_defs generateM3U8_60 Let_def)

text \<open>
  The theorem on the stream of \<^verbatim>\<open>/watch.m3u8\<close>, with a probe that fails, with a command that
  fails before it starts, and with a command that starts and fails later.
\<close>

theorem spawn_calls_back_once_witness:
  "0 < length (heap one_stream) \<and> 0 = length (closures one_stream) \<and>
   callbacks_of 0 (state_of (run [ProbeDone 0 ProbeErr, ProcStart 0]
      (spawn 0 (WatchSuccess 0) (WatchError 0 0 ''abcdefgh'') one_stream))) = [CallError 0] \<and>
   runs_of 0 (state_of (run [ProbeDone 0 ProbeErr, ProcStart 0]
      (spawn 0 (WatchSuccess 0) (WatchError 0 0 ''abcdefgh'') one_stream))) = [] \<and>
   callbacks_of 0 (state_of (run [ProbeDone 0 (ProbeOk 60), ProcError 0, ProcStart 0]
      (spawn 0 (WatchSuccess 0) (WatchError 0 0 ''abcdefgh'') one_stream))) = [CallError 0] \<and>
   callbacks_of 0 (state_of (run [ProbeDone 0 (ProbeOk 60), ProcStart 0, ProcError 0, ProcStart 0]
      (spawn 0 (WatchSuccess 0) (WatchError 0 0 ''abcdefgh'') one_stream))) =
     [CallSuccess 0 (spec_manifest 60 ''abcdefgh'')]"
proof -
  let ?w = "spawn 0 (WatchSuccess 0) (WatchError 0 0 ''abcdefgh'') one_stream"
  have a: "0 < length (heap one_stream)" and c: "0 = length (closures one_stream)"
    by (simp_all add: one_stream_eq)
  have b: "callbacks_of 0 one_stream = []" "runs_of 0 one_stream = []"
    "streamIdentifier (heap one_stream ! 0) = ''abcdefgh''"
    by (simp_all add: one_stream_eq callbacks_of_def runs_of_def)
  note t = spawn_calls_back_once[OF a c, of "WatchSuccess 0" "WatchError 0 0 ''abcdefgh''"]
  have n: "\<forall>r. ProbeDone 0 r \<notin> set []" "ProcError 0 \<notin> set []" "ProcStart 0 \<notin> set []"
    by simp_all
  from one_stream_probe_fails obtain w1 where w1: "run ([] @ ProbeDone 0 ProbeErr # [ProcStart 0]) ?w = Inr w1"
    by blast
  with t n have "callbacks_of 0 w1 = callbacks_of 0 one_stream @ [CallError 0] \<and>
      runs_of 0 w1 = runs_of 0 one_stream" by blast
  then have r1: "callbacks_of 0 (state_of (run [ProbeDone 0 ProbeErr, ProcStart 0] ?w)) = [CallError 0]"
    "runs_of 0 (state_of (run [ProbeDone 0 ProbeErr, ProcStart 0] ?w)) = []"
    using w1 b by (simp_all add: state_of_def)
  from one_stream_error_first obtain w2 where
    w2: "run ([] @ ProbeDone 0 (ProbeOk 60) # [] @ ProcError 0 # [ProcStart 0]) ?w = Inr w2"
    by blast
  with t n have "callbacks_of 0 w2 = callbacks_of 0 one_stream @ [CallError 0]" by blast
  then have r2: "callbacks_of 0 (state_of (run [ProbeDone 0 (ProbeOk 60), ProcError 0, ProcStart 0] ?w)) =
      [CallError 0]"
    using w2 b by (simp add: state_of_def)
  from one_stream_start_first obtain w3 where
    w3: "run ([] @ ProbeDone 0 (ProbeOk 60) # [] @ ProcStart 0 # [ProcError 0, ProcStart 0]) ?w = Inr w3"
    by blast
  with t n have "\<exists>m fs fs'. generateM3U8 60 (streamIdentifier (heap one_stream ! 0)) fs = Inr (m, fs') \<and>
      callbacks_of 0 w3 = callbacks_of 0 one_stream @ [CallSuccess 0 m]" by blast
  then have "callbacks_of 0 w3 = [CallSuccess 0 (spec_manifest 60 ''abcdefgh'')]"
    unfolding b by (auto simp add: generateM3U8_60 valid_filename_def)
  then have r3: "callbacks_of 0 (state_of (run [ProbeDone 0 (ProbeOk 60), ProcStart 0, ProcError 0, ProcStart 0] ?w)) =
      [CallSuccess 0 (spec_manifest 60 ''abcdefgh'')]"
    using w3 by (simp add: state_of_def)
  show ?thesis using a c r1 r2 r3 by blast
qed

text \<open>
  Claim C4.  For a stream of the heap, any number of calls of \<^verbatim>\<open>kill\<close> after a first one
  leave the streams, the registry, the files and the set of files to unlink as one call does
  that removes the files if any of the calls asked for it: the ticker is cancelled and the
  transcoder handle cleared.
  The \<open>finishCallback\<close> is called once by every call of \<^verbatim>\<open>kill\<close>, so \<open>1 + length bs\<close> times
  by the first call and the calls \<open>bs\<close>.
\<close>

theorem kill_idempotent_state:
  assumes "a < length (heap w)"
  shows "same_state (kills a bs (kill a b w)) (kill a (b \<or> True \<in> set bs) w) \<and>
         process (heap (kills a bs (kill a b w)) ! a) = None \<and>
         selfDestructTimer (heap (kills a bs (kill a b w)) ! a) = None \<and>
         finish_calls a (kills a bs (kill a b w)) = finish_calls a w + 1 + length bs"
proof -
  have s: "same_state (kills a bs (kill a b w)) (kill a (b \<or> True \<in> set bs) w)"
    using assms by (rule kills_kill)
  then have h: "heap (kills a bs (kill a b w)) = heap (kill a (b \<or> True \<in> set bs) w)"
    by (simp add: same_state_def)
  have f: "finish_calls a (kills a bs (kill a b w)) = finish_calls a w + 1 + length bs"
    by (simp add: finish_calls_kills finish_calls_kill)
  show ?thesis unfolding h using s f kill_stream[OF assms] h by simp
qed

lemma playing_kill:
  "kill 0 r playing = playing
     \<lparr>streams := [],
      heap := [\<lparr>streamUrl = ''rtsp://cam'', streamIdentifier = ''abcdefgh'', seekToSegment = Num 0,
               process = None, lastActivity = 0, selfDestructTimer = None,
               finishCallback = DeleteStream ''abcdefgh''\<rparr>],
      unlinks := (if r then [''abcdefgh_master.m3u8''] else []),
      trace := trace playing @ [ProcessKill 0, Finish 0]\<rparr>"
  by (simp add: playing_eq kill_def removeFiles_def call_finish_def delete_key_def glob_prefix_def
        prims Let_def)

text \<open>
  The theorem on the playing stream, killed three times, the second time with its files: the
  unlink of the master file is pending, and the file is gone when it has completed.
\<close>

theorem kill_idempotent_state_witness:
  "0 < length (heap playing) \<and>
   same_state (kills 0 [True, False] (kill 0 False playing)) (kill 0 True playing) \<and>
   set (unlinks (kills 0 [True, False] (kill 0 False playing))) = {''abcdefgh_master.m3u8''} \<and>
   files (state_of (step (UnlinkDone ''abcdefgh_master.m3u8'' True) (kill 0 True playing))) = [] \<and>
   process (heap (kills 0 [True, False] (kill 0 False playing)) ! 0) = None \<and>
   selfDestructTimer (heap (kills 0 [True, False] (kill 0 False playing)) ! 0) = None \<and>
   finish_calls 0 (kills 0 [True, False] (kill 0 False playing)) = 3"
proof -
  have a: "0 < length (heap playing)" by (simp add: playing_eq)
  have f: "finish_calls 0 playing = 0" by (simp add: playing_eq finish_calls_def)
  have k: "set (unlinks (kill 0 True playing)) = {''abcdefgh_master.m3u8''}"
    by (simp add: playing_kill)
  from kill_idempotent_state[OF a, of "[True, False]" False]
  have t: "same_state (kills 0 [True, False] (kill 0 False playing)) (kill 0 True playing)"
    "process (heap (kills 0 [True, False] (kill 0 False playing)) ! 0) = None"
    "selfDestructTimer (heap (kills 0 [True, False] (kill 0 False playing)) ! 0) = None"
    "finish_calls 0 (kills 0 [True, False] (kill 0 False playing)) = 3"
    by (simp_all add: f)
  from t(1) k
  have "set (unlinks (kills 0 [True, False] (kill 0 False playing))) = {''abcdefgh_master.m3u8''}"
    by (simp add: same_state_def)
  moreover have "files (state_of (step (UnlinkDone ''abcdefgh_master.m3u8'' True) (kill 0 True playing))) = []"
    by (simp add: playing_kill) (simp add: playing_eq model_defs Let_def)
  ultimately show ?thesis using a t by blast
qed

text \<open>
  The claim as the specification words it does not hold: two calls of \<^verbatim>\<open>kill\<close> on the
  playing stream call its \<open>finishCallback\<close> twice.
\<close>

theorem kill_twice_finishes_twice:
  "finish_calls 0 playing = 0 \<and> finish_calls 0 (kill 0 False playing) = 1 \<and>
   finish_calls 0 (kills 0 [False] (kill 0 False playing)) = 2 \<and>
   trace (kills 0 [False] (kill 0 False playing)) = trace playing @ [ProcessKill 0, Finish 0, Finish 0]"
  by (simp add: kills_def playing_kill finish_calls_def)
     (simp add: playing_eq kill_def removeFiles_def call_finish_def delete_key_def prims Let_def)

lemma crashed_eq:
  "crashed = playing
     \<lparr>heap := [\<lparr>streamUrl = ''rtsp://cam'', streamIdentifier = ''abcdefgh'', seekToSegment = Num 0,
               process = None, lastActivity = 0, selfDestructTimer = Some 5000,
               finishCallback = DeleteStream ''abcdefgh''\<rparr>],
      files := [(''abcdefgh4.ts'', []), (''abcdefgh3.ts'', []), (''abcdefgh2.ts'', []),
                (''abcdefgh1.ts'', []), (''abcdefgh0.ts'', []),
                (''abcdefgh_master.m3u8'', spec_manifest 60 ''abcdefgh'')]\<rparr>"
  by (simp add: crashed_def playing_eq model_defs Let_def)

text \<open>
  Claim C5.  The transcoder of the playing stream wrote the segments 0 to 4 and then failed,
  which cleared the handle.  The request for segment 5 makes its poller call \<^verbatim>\<open>spawn\<close> once,
  but the branch of \<^verbatim>\<open>poll\<close> that sets \<open>seekToSegment\<close> is guarded by \<^verbatim>\<open>process !== null\<close>
  and is skipped: the new command runs with the seek position 0 of the first one, not 5.
\<close>

theorem crash_respawn_seeks_zero:
  "process (heap crashed ! 0) = None \<and>
   map fst (files crashed) = [''abcdefgh4.ts'', ''abcdefgh3.ts'', ''abcdefgh2.ts'', ''abcdefgh1.ts'',
                              ''abcdefgh0.ts'', ''abcdefgh_master.m3u8''] \<and>
   trace (state_of (run [Request (segment_req (Some ''abcdefgh5.ts'')) [], ProbeDone 1 (ProbeOk 60),
                         ProcStart 1] crashed)) =
     trace crashed @ [LogPolling 0, Ffprobe 1 ''rtsp://cam'', FfmpegRun 1 (Num 0),
                      CallSuccess 1 (spec_manifest 60 ''abcdefgh'')] \<and>
   segmentIndex (pollers (state_of (run [Request (segment_req (Some ''abcdefgh5.ts'')) [],
                         ProbeDone 1 (ProbeOk 60), ProcStart 1] crashed)) ! 0) = Num 5 \<and>
   spawn_calls 0 (state_of (run [Request (segment_req (Some ''abcdefgh5.ts'')) [],
                         ProbeDone 1 (ProbeOk 60), ProcStart 1] crashed)) = 1 \<and>
   seekToSegment (heap (state_of (run [Request (segment_req (Some ''abcdefgh5.ts'')) [],
                         ProbeDone 1 (ProbeOk 60), ProcStart 1] crashed)) ! 0) = Num 0"
  unfolding crashed_eq
  by (simp add: playing_eq segment_req_def model_defs generateM3U8_60 spawn_calls_def num_sub_def Let_def)

text \<open>
  Claim C6.  The ticker and the transcoder handle of a stream are not set and cleared
  together.  A new stream has neither.  \<^verbatim>\<open>spawn\<close> starts the ticker if it is not running
  and leaves the handle as it is, so the ticker runs while the stream is probed.  The
  callback of a successful probe sets the handle and leaves the ticker.  An error of the
  command after its first callback clears the handle and leaves the ticker.  \<^verbatim>\<open>kill\<close> clears
  both.
\<close>

theorem ticker_and_handle:
  assumes "a < length (heap w)"
  shows "process (new_Stream u i k f t) = None \<and> selfDestructTimer (new_Stream u i k f t) = None \<and>
         selfDestructTimer (heap (spawn a s e w) ! a) =
           (case selfDestructTimer (heap w ! a) of None \<Rightarrow> Some 5000 | Some t \<Rightarrow> Some t) \<and>
         process (heap (spawn a s e w) ! a) = process (heap w ! a) \<and>
         (\<forall>c d w'. probe_callback c (ProbeOk d) w = Inr w' \<and> this (closures w ! c) = a \<longrightarrow>
            process (heap w' ! a) = Some c \<and>
            selfDestructTimer (heap w' ! a) = selfDestructTimer (heap w ! a)) \<and>
         (\<forall>c. initialCallbackSent (closures w ! c) \<and> this (closures w ! c) = a \<longrightarrow>
            process (heap (on_error c w) ! a) = None \<and>
            selfDestructTimer (heap (on_error c w) ! a) = selfDestructTimer (heap w ! a)) \<and>
         process (heap (kill a r w) ! a) = None \<and> selfDestructTimer (heap (kill a r w) ! a) = None"
proof -
  have n: "process (new_Stream u i k f t) = None" "selfDestructTimer (new_Stream u i k f t) = None"
    by (simp_all add: new_Stream_def)
  have p: "process (heap w' ! a) = Some c \<and>
      selfDestructTimer (heap w' ! a) = selfDestructTimer (heap w ! a)"
    if "probe_callback c (ProbeOk d) w = Inr w' \<and> this (closures w ! c) = a" for c d w'
    using probe_ok_stream[of c d w w' a] that assms by simp
  have q: "process (heap (on_error c w) ! a) = None \<and>
      selfDestructTimer (heap (on_error c w) ! a) = selfDestructTimer (heap w ! a)"
    if "initialCallbackSent (closures w ! c) \<and> this (closures w ! c) = a" for c
    using on_error_late[of w c a] that assms by simp
  show ?thesis
    unfolding spawn_heap
    using n startSelfDestructor_timer[OF assms] kill_stream[OF assms] p q by simp
qed

text \<open>
  The theorem on the states of one stream: before its first \<^verbatim>\<open>spawn\<close>, while it is probed,
  and while it plays.
\<close>

theorem ticker_and_handle_witness:
  "0 < length (heap one_stream) \<and>
   selfDestructTimer (heap (spawn 0 (WatchSuccess 0) (WatchError 0 0 ''abcdefgh'') one_stream) ! 0) = Some 5000 \<and>
   process (heap (spawn 0 (WatchSuccess 0) (WatchError 0 0 ''abcdefgh'') one_stream) ! 0) = None \<and>
   process (heap (state_of (probe_callback 0 (ProbeOk 60)
      (spawn 0 (WatchSuccess 0) (WatchError 0 0 ''abcdefgh'') one_stream))) ! 0) = Some 0 \<and>
   selfDestructTimer (heap (state_of (probe_callback 0 (ProbeOk 60)
      (spawn 0 (WatchSuccess 0) (WatchError 0 0 ''abcdefgh'') one_stream))) ! 0) = Some 5000 \<and>
   process (heap (on_error 0 playing) ! 0) = None \<and>
   selfDestructTimer (heap (on_error 0 playing) ! 0) = Some 5000 \<and>
   process (heap (kill 0 True playing) ! 0) = None \<and>
   selfDestructTimer (heap (kill 0 True playing) ! 0) = None"
proof -
  let ?p = "spawn 0 (WatchSuccess 0) (WatchError 0 0 ''abcdefgh'') one_stream"
  have a: "0 < length (heap one_stream)" "selfDestructTimer (heap one_stream ! 0) = None"
    "process (heap one_stream ! 0) = None"
    by (simp_all add: one_stream_eq)
  from ticker_and_handle[OF a(1), where s = "WatchSuccess 0" and e = "WatchError 0 0 ''abcdefgh''"]
  have s: "selfDestructTimer (heap ?p ! 0) = Some 5000" "process (heap ?p ! 0) = None"
    by (simp_all add: a)
  have b: "0 < length (heap ?p)" "this (closures ?p ! 0) = 0" by (simp_all add: one_stream_spawn)
  have "\<exists>w'. probe_callback 0 (ProbeOk 60) ?p = Inr w'"
    unfolding one_stream_spawn by (simp add: probe_callback_def generateM3U8_60 valid_filename_def prims Let_def)
  then obtain w' where w': "probe_callback 0 (ProbeOk 60) ?p = Inr w'" by blast
  from ticker_and_handle[OF b(1)] w' b(2)
  have "process (heap w' ! 0) = Some 0 \<and> selfDestructTimer (heap w' ! 0) = selfDestructTimer (heap ?p ! 0)"
    by blast
  then have r: "process (heap (state_of (probe_callback 0 (ProbeOk 60) ?p)) ! 0) = Some 0"
    "selfDestructTimer (heap (state_of (probe_callback 0 (ProbeOk 60) ?p)) ! 0) = Some 5000"
    using w' s by (simp_all add: state_of_def)
  have c: "0 < length (heap playing)" "initialCallbackSent (closures playing ! 0)"
    "this (closures playing ! 0) = 0" "selfDestructTimer (heap playing ! 0) = Some 5000"
    by (simp_all add: playing_eq)
  from ticker_and_handle[OF c(1), where r = True] c
  have k: "process (heap (on_error 0 playing) ! 0) = None"
    "selfDestructTimer (heap (on_error 0 playing) ! 0) = Some 5000"
    "process (heap (kill 0 True playing) ! 0) = None"
    "selfDestructTimer (heap (kill 0 True playing) ! 0) = None"
    by simp_all
  show ?thesis using a(1) s r k by blast
qed

text \<open>
  The claim as the specification words it does not hold.  While the stream of a
  \<^verbatim>\<open>/watch.m3u8\<close> request is probed, and after the command of the playing stream failed, the
  ticker is active and there is no transcoder handle.
\<close>

theorem ticker_without_handle:
  "process (heap (state_of (run [Request watch_req ''abcdefgh''] init)) ! 0) = None \<and>
   selfDestructTimer (heap (state_of (run [Request watch_req ''abcdefgh''] init)) ! 0) = Some 5000 \<and>
   process (heap playing ! 0) = Some 0 \<and>
   process (heap (state_of (run [ProcError 0] playing)) ! 0) = None \<and>
   selfDestructTimer (heap (state_of (run [ProcError 0] playing)) ! 0) = Some 5000"
  by (simp add: playing_eq init_def watch_req_def model_defs Let_def)

text \<open>
  Claim C7.  A poller is constructed with \<open>maxTries = 10\<close>, the greater of 10 and twice the
  segment duration.  \<^verbatim>\<open>poll\<close> gives up when \<^verbatim>\<open>currentTry > maxTries\<close>, and \<open>currentTry\<close> starts
  at 0: when the requested segment never appears, the poller of a playing stream polls for
  the file 11 times, one more than \<open>maxTries\<close>, and the twelfth call of \<^verbatim>\<open>poll\<close> answers the
  request with status 500.
\<close>

theorem poller_polls_eleven_times:
  "maxTries (pollers (state_of (run [Request (segment_req (Some ''abcdefgh1.ts'')) []] playing)) ! 0) = 10 \<and>
   trace (state_of (run [Request (segment_req (Some ''abcdefgh1.ts'')) [],
      TimeoutFires 0, TimeoutFires 0, TimeoutFires 0, TimeoutFires 0, TimeoutFires 0, TimeoutFires 0,
      TimeoutFires 0, TimeoutFires 0, TimeoutFires 0, TimeoutFires 0, TimeoutFires 0] playing)) =
   trace playing @ [LogPolling 0, LogPolling 0, LogPolling 0, LogPolling 0, LogPolling 0, LogPolling 0,
      LogPolling 0, LogPolling 0, LogPolling 0, LogPolling 0, LogPolling 0, LogMaxTry 0, Respond 1 500 []]"
  by (simp add: playing_eq segment_req_def model_defs num_sub_def Let_def)

text \<open>
  Claim C8.  On the playing stream a tick of the self-destructor does nothing 60 seconds
  after the last activity and calls \<^verbatim>\<open>kill(true)\<close> one millisecond later.  The call takes the
  stream out of the registry and leaves its files in place: \<^verbatim>\<open>fs.unlink\<close> is pending for each,
  and a file is gone once its unlink has completed.  But a transcoder can be alive with no
  check running.  When the check destroys a stream whose probe is still pending, the callback
  of the probe runs afterwards: it writes the master file again and starts the transcoder,
  on a stream that is not in the registry and whose ticker is cleared, so that nothing ever
  kills this transcoder.
\<close>

theorem transcoder_outlives_self_destruct:
  "step (IntervalTick 0) (playing\<lparr>now := 60000\<rparr>) = Inr (playing\<lparr>now := 60000\<rparr>) \<and>
   step (IntervalTick 0) (playing\<lparr>now := 60001\<rparr>) = Inr (kill 0 True (playing\<lparr>now := 60001\<rparr>)) \<and>
   streams (kill 0 True (playing\<lparr>now := 60001\<rparr>)) = [] \<and>
   files (kill 0 True (playing\<lparr>now := 60001\<rparr>)) = files playing \<and>
   unlinks (kill 0 True (playing\<lparr>now := 60001\<rparr>)) = [''abcdefgh_master.m3u8''] \<and>
   files (state_of (run [IntervalTick 0, UnlinkDone ''abcdefgh_master.m3u8'' True]
       (playing\<lparr>now := 60001\<rparr>))) = [] \<and>
   process (heap (state_of (run [Request watch_req ''abcdefgh'', TimePasses 61000, IntervalTick 0,
       ProbeDone 0 (ProbeOk 60), ProcStart 0] init)) ! 0) = Some 0 \<and>
   selfDestructTimer (heap (state_of (run [Request watch_req ''abcdefgh'', TimePasses 61000, IntervalTick 0,
       ProbeDone 0 (ProbeOk 60), ProcStart 0] init)) ! 0) = None \<and>
   streams (state_of (run [Request watch_req ''abcdefgh'', TimePasses 61000, IntervalTick 0,
       ProbeDone 0 (ProbeOk 60), ProcStart 0] init)) = [] \<and>
   map fst (files (state_of (run [Request watch_req ''abcdefgh'', TimePasses 61000, IntervalTick 0,
       ProbeDone 0 (ProbeOk 60), ProcStart 0] init))) = [''abcdefgh_master.m3u8''] \<and>
   unlinks (state_of (run [Request watch_req ''abcdefgh'', TimePasses 61000, IntervalTick 0,
       ProbeDone 0 (ProbeOk 60), ProcStart 0] init)) = [] \<and>
   trace (state_of (run [Request watch_req ''abcdefgh'', TimePasses 61000, IntervalTick 0,
       ProbeDone 0 (ProbeOk 60), ProcStart 0] init)) =
     [Ffprobe 0 ''rtsp://cam'', Finish 0, FfmpegRun 0 (Num 0),
      CallSuccess 0 (spec_manifest 60 ''abcdefgh''), Respond 0 200 (spec_manifest 60 ''abcdefgh'')]"
proof -
  have a: "step (IntervalTick 0) (playing\<lparr>now := 60000\<rparr>) = Inr (playing\<lparr>now := 60000\<rparr>)"
    "step (IntervalTick 0) (playing\<lparr>now := 60001\<rparr>) = Inr (kill 0 True (playing\<lparr>now := 60001\<rparr>))"
    by (simp_all add: step_def checkDestruct_iff playing_eq)
  have b: "streams (kill 0 True (playing\<lparr>now := 60001\<rparr>)) = []"
    "files (kill 0 True (playing\<lparr>now := 60001\<rparr>)) = files playing"
    "unlinks (kill 0 True (playing\<lparr>now := 60001\<rparr>)) = [''abcdefgh_master.m3u8'']"
    by (simp_all add: playing_eq kill_def removeFiles_def call_finish_def delete_key_def
          glob_prefix_def prims Let_def)
  have c: "files (state_of (run [IntervalTick 0, UnlinkDone ''abcdefgh_master.m3u8'' True]
       (playing\<lparr>now := 60001\<rparr>))) = []"
    by (simp add: playing_eq model_defs Let_def)
  have d: "run [Request watch_req ''abcdefgh'', TimePasses 61000, IntervalTick 0,
       ProbeDone 0 (ProbeOk 60), ProcStart 0] init =
     Inr \<lparr>streams = [],
          heap = [\<lparr>streamUrl = ''rtsp://cam'', streamIdentifier = ''abcdefgh'', seekToSegment = Num 0,
                   process = Some 0, lastActivity = 61000, selfDestructTimer = None,
                   finishCallback = DeleteStream ''abcdefgh''\<rparr>],
          closures = [\<lparr>this = 0, initialCallbackSent = True, successCallback = WatchSuccess 0,
                       errorCallback = WatchError 0 0 ''abcdefgh'',
                       placeholderM3U8 = spec_manifest 60 ''abcdefgh'', probing = False,
                       running = True\<rparr>],
          pollers = [],
          files = [(''abcdefgh_master.m3u8'', spec_manifest 60 ''abcdefgh'')], unlinks = [],
          now = 61000, requests = 1,
          trace = [Ffprobe 0 ''rtsp://cam'', Finish 0, FfmpegRun 0 (Num 0),
                   CallSuccess 0 (spec_manifest 60 ''abcdefgh''),
                   Respond 0 200 (spec_manifest 60 ''abcdefgh'')]\<rparr>"
    by (simp add: init_def watch_req_def model_defs generateM3U8_60 Let_def)
  show ?thesis unfolding d using a b c by (simp add: state_of_def)
qed

text \<open>
  Property X1.  The check of the self-destructor runs from the call of \<^verbatim>\<open>spawn\<close> until the
  next call of \<^verbatim>\<open>kill\<close> on the stream: over every sequence of events after \<open>spawn a\<close> in which
  the \<open>finishCallback\<close> of \<open>a\<close> was not called, the ticker of \<open>a\<close> is set, with a period of 5000
  milliseconds.  A tick calls \<^verbatim>\<open>kill(true)\<close> exactly when more than 60000 milliseconds passed
  since \<open>lastActivity\<close>, and does nothing otherwise.  \<^verbatim>\<open>kill(true)\<close> takes the identifier out of
  the registry, removes no file itself, and leaves an unlink pending for every file whose name
  starts with the identifier.
\<close>

theorem self_destruct:
  assumes "a < length (heap w)"
    and "finishCallback (heap w ! a) = DeleteStream (streamIdentifier (heap w ! a))"
  shows "(\<forall>s e evs w'. run evs (spawn a s e w) = Inr w' \<and>
            (selfDestructTimer (heap w ! a) = None \<or> selfDestructTimer (heap w ! a) = Some 5000) \<and>
            finish_calls a w' = finish_calls a w \<longrightarrow>
            selfDestructTimer (heap w' ! a) = Some 5000) \<and>
         step (IntervalTick a) w =
           Inr (if selfDestructTimer (heap w ! a) \<noteq> None \<and> 60000 < now w - lastActivity (heap w ! a)
                then kill a True w else w) \<and>
         map_of (streams (kill a True w)) (streamIdentifier (heap w ! a)) = None \<and>
         files (kill a True w) = files w \<and>
         set (unlinks (kill a True w)) =
           set (unlinks w) \<union> {n \<in> fst ` set (files w). glob_prefix (streamIdentifier (heap w ! a)) n}"
proof -
  have t: "selfDestructTimer (heap w' ! a) = Some 5000"
    if "run evs (spawn a s e w) = Inr w' \<and>
        (selfDestructTimer (heap w ! a) = None \<or> selfDestructTimer (heap w ! a) = Some 5000) \<and>
        finish_calls a w' = finish_calls a w" for s e evs w'
    using ticker_until_kill[of evs a s e w w'] that assms(1) by blast
  have i: "step (IntervalTick a) w =
           Inr (if selfDestructTimer (heap w ! a) \<noteq> None \<and> 60000 < now w - lastActivity (heap w ! a)
                then kill a True w else w)"
    using assms(1) by (simp add: step_def checkDestruct_iff)
  from t i kill_true_clean[OF assms] show ?thesis by blast
qed

text \<open>
  The theorem on one stream: its ticker survives the probe, the start and an error of the
  command; a tick after 60 seconds does nothing, a tick after 60.001 seconds kills the
  playing stream and leaves the unlink of its master file pending.
\<close>

theorem self_destruct_witness:
  "0 < length (heap one_stream) \<and>
   selfDestructTimer (heap (state_of (run [ProbeDone 0 (ProbeOk 60), ProcStart 0, ProcError 0]
      (spawn 0 (WatchSuccess 0) (WatchError 0 0 ''abcdefgh'') one_stream))) ! 0) = Some 5000 \<and>
   step (IntervalTick 0) (playing\<lparr>now := 60000\<rparr>) = Inr (playing\<lparr>now := 60000\<rparr>) \<and>
   step (IntervalTick 0) (playing\<lparr>now := 60001\<rparr>) = Inr (kill 0 True (playing\<lparr>now := 60001\<rparr>)) \<and>
   map_of (streams (kill 0 True (playing\<lparr>now := 60001\<rparr>))) ''abcdefgh'' = None \<and>
   set (unlinks (kill 0 True (playing\<lparr>now := 60001\<rparr>))) = {''abcdefgh_master.m3u8''}"
proof -
  let ?p = "spawn 0 (WatchSuccess 0) (WatchError 0 0 ''abcdefgh'') one_stream"
  let ?ev = "[ProbeDone 0 (ProbeOk 60), ProcStart 0, ProcError 0]"
  have a: "0 < length (heap one_stream)"
    "finishCallback (heap one_stream ! 0) = DeleteStream (streamIdentifier (heap one_stream ! 0))"
    "selfDestructTimer (heap one_stream ! 0) = None"
    by (simp_all add: one_stream_eq)
  have "\<exists>w'. run ?ev ?p = Inr w' \<and> finish_calls 0 w' = finish_calls 0 one_stream"
    unfolding one_stream_spawn
    by (simp add: one_stream_eq model_defs generateM3U8_60 finish_calls_def Let_def)
  then obtain w' where w': "run ?ev ?p = Inr w'" "finish_calls 0 w' = finish_calls 0 one_stream"
    by blast
  from self_destruct[OF a(1,2)] w' a(3) have "selfDestructTimer (heap w' ! 0) = Some 5000" by blast
  then have r: "selfDestructTimer (heap (state_of (run ?ev ?p)) ! 0) = Some 5000"
    using w'(1) by (simp add: state_of_def)
  have b: "0 < length (heap (playing\<lparr>now := n\<rparr>))"
    "finishCallback (heap (playing\<lparr>now := n\<rparr>) ! 0) =
       DeleteStream (streamIdentifier (heap (playing\<lparr>now := n\<rparr>) ! 0))" for n
    by (simp_all add: playing_eq)
  have c: "selfDestructTimer (heap playing ! 0) = Some 5000" "lastActivity (heap playing ! 0) = 0"
    "streamIdentifier (heap playing ! 0) = ''abcdefgh''" "unlinks playing = []"
    "files playing = [(''abcdefgh_master.m3u8'', spec_manifest 60 ''abcdefgh'')]"
    by (simp_all add: playing_eq)
  note t0 = self_destruct[OF b(1)[of 60000] b(2)[of 60000]]
  note t1 = self_destruct[OF b(1)[of 60001] b(2)[of 60001]]
  from conjunct1[OF conjunct2[OF t0]]
  have s0: "step (IntervalTick 0) (playing\<lparr>now := 60000\<rparr>) = Inr (playing\<lparr>now := 60000\<rparr>)"
    by (simp add: c)
  from conjunct1[OF conjunct2[OF t1]]
  have s1: "step (IntervalTick 0) (playing\<lparr>now := 60001\<rparr>) = Inr (kill 0 True (playing\<lparr>now := 60001\<rparr>))"
    by (simp add: c)
  from conjunct1[OF conjunct2[OF conjunct2[OF t1]]]
  have k1: "map_of (streams (kill 0 True (playing\<lparr>now := 60001\<rparr>))) ''abcdefgh'' = None"
    by (simp add: c)
  have e: "{n \<in> fst ` set (files playing). glob_prefix ''abcdefgh'' n} = {''abcdefgh_master.m3u8''}"
    unfolding c(5) by (auto simp: glob_prefix_def)
  from conjunct2[OF conjunct2[OF conjunct2[OF conjunct2[OF t1]]]]
  have k2: "set (unlinks (kill 0 True (playing\<lparr>now := 60001\<rparr>))) = {''abcdefgh_master.m3u8''}"
    by (simp add: c(3,4) e)
  show ?thesis using a(1) r s0 s1 k1 k2 by blast
qed

lemma split_on_none: "s \<notin> set xs \<Longrightarrow> split_on s xs = [xs]"
  by (induction xs) auto

lemma filename_safe_url:
  assumes "filename_safe c"
  shows "url_char c" "c \<noteq> CHR ''&''" "c \<noteq> CHR ''=''" "c \<noteq> CHR ''+''" "c \<noteq> CHR ''?''"
  using assms by (auto simp: filename_safe_def url_char_def)

lemma digit_filename_safe: "is_digit c \<Longrightarrow> filename_safe c"
  unfolding is_digit_def filename_safe_def by (elim disjE | simp)+

lemma segment_name_safe:
  assumes "list_all filename_safe ident"
  shows "list_all filename_safe (ident @ show_nat i @ ''.ts'')"
proof -
  have "list_all filename_safe (show_nat i)"
    using show_nat_digits[of i] by (auto simp: list_all_iff digit_filename_safe)
  moreover have "list_all filename_safe ''.ts''" by (simp add: filename_safe_def)
  ultimately show ?thesis using assms by simp
qed

lemma parse_segment_target:
  assumes "list_all filename_safe name"
  shows "parse_request m (''/segment.ts?file='' @ name) =
     Some \<lparr>req_method = m, uri = ''/segment.ts'', query_url = None, query_file = Some name\<rparr>"
proof -
  have s: "\<And>c. c \<in> set name \<Longrightarrow> filename_safe c" using assms by (simp add: list_all_iff)
  have n: "CHR ''&'' \<notin> set name" "CHR ''='' \<notin> set name" "CHR ''+'' \<notin> set name"
    using s filename_safe_url(2-4) by blast+
  have u: "list_all url_char name" using s filename_safe_url(1) by (auto simp: list_all_iff)
  have q: "search_of (''/segment.ts?file='' @ name) = ''file='' @ name" by (simp add: search_of_def)
  have sp: "split_on CHR ''&'' (''file='' @ name) = [''file='' @ name]"
    using n(1) by (intro split_on_none) simp
  have p: "map plus_to_space name = name"
    using n(3) by (induction name) (auto simp: plus_to_space_def)
  have qs: "qs_parse (''file='' @ name) = [(''file'', name)]"
    unfolding qs_parse_def sp by (simp add: qs_pair_def plus_to_space_def p)
  have c: "url_covered (''/segment.ts?file='' @ name)"
    unfolding url_covered_def q qs sp using u by (simp add: url_char_def)
  show ?thesis unfolding parse_request_def q qs using c by simp
qed

text \<open>
  Claim C9.  For every identifier of exactly 8 characters of a portable file name and every
  segment index \<open>i \<le> 2\<^sup>5\<^sup>3\<close>, the URI of segment \<open>i\<close> in the manifest is
  \<^verbatim>\<open>/segment.ts?file=\<close> followed by the identifier, the decimal digits of \<open>i\<close> and \<^verbatim>\<open>.ts\<close>.  The
  handler parses this request target into the path \<^verbatim>\<open>/segment.ts\<close> and the \<^verbatim>\<open>file\<close> parameter
  with that file name, and the constructor of the poller reads the pair back from the file
  name: the first 8 characters are the identifier, and \<^verbatim>\<open>parseInt\<close> of what follows them, up
  to the first dot, is \<open>i\<close>.
\<close>

theorem segment_uri_round_trip:
  assumes "length ident = 8" and "list_all filename_safe ident" and "i \<le> 2 ^ 53"
  shows "segment_uri ident i = ''/segment.ts?file='' @ (ident @ show_nat i @ ''.ts'') \<and>
         parse_request ''GET'' (segment_uri ident i) =
           Some (segment_req (Some (ident @ show_nat i @ ''.ts''))) \<and>
         take 8 (ident @ show_nat i @ ''.ts'') = ident \<and>
         index_of_name (ident @ show_nat i @ ''.ts'') = Num (of_nat i)"
proof -
  have u: "segment_uri ident i = ''/segment.ts?file='' @ (ident @ show_nat i @ ''.ts'')"
    by (simp add: segment_uri_def)
  have p: "parse_request ''GET'' (segment_uri ident i) =
      Some (segment_req (Some (ident @ show_nat i @ ''.ts'')))"
    unfolding u segment_req_def using segment_name_safe[OF assms(2), of i]
    by (rule parse_segment_target)
  show ?thesis using u p assms(1) index_of_name_segment[OF assms(1,3)] by simp
qed

text \<open>The theorem on the URI of segment 11 of the stream \<^verbatim>\<open>abcdefgh\<close>.\<close>

theorem segment_uri_round_trip_witness:
  "length ''abcdefgh'' = 8 \<and> list_all filename_safe ''abcdefgh'' \<and> (11 :: nat) \<le> 2 ^ 53 \<and>
   segment_uri ''abcdefgh'' 11 = ''/segment.ts?file=abcdefgh11.ts'' \<and>
   parse_request ''GET'' ''/segment.ts?file=abcdefgh11.ts'' = Some (segment_req (Some ''abcdefgh11.ts'')) \<and>
   take 8 ''abcdefgh11.ts'' = ''abcdefgh'' \<and> index_of_name ''abcdefgh11.ts'' = Num 11"
proof -
  have s: "show_nat 11 = ''11''" by (simp add: show_nat.simps digit_char_def)
  have l: "length ''abcdefgh'' = 8" "list_all filename_safe ''abcdefgh''" "(11 :: nat) \<le> 2 ^ 53"
    by (simp_all add: filename_safe_def)
  note t = segment_uri_round_trip[OF l, unfolded s]
  from conjunct1[OF t] have u: "segment_uri ''abcdefgh'' 11 = ''/segment.ts?file=abcdefgh11.ts''"
    by simp
  from conjunct1[OF conjunct2[OF t]]
  have p: "parse_request ''GET'' ''/segment.ts?file=abcdefgh11.ts'' =
      Some (segment_req (Some ''abcdefgh11.ts''))"
    unfolding u by simp
  from conjunct2[OF conjunct2[OF t]]
  have r: "take 8 ''abcdefgh11.ts'' = ''abcdefgh''" "index_of_name ''abcdefgh11.ts'' = Num 11"
    by simp_all
  show ?thesis using l u p r by blast
qed

text \<open>
  The claim as the specification words it, for identifiers of at least 8 characters, does
  not hold: of an identifier of 9 characters the poller keeps the first 8, and the ninth
  makes the index \<^verbatim>\<open>NaN\<close>.
\<close>

theorem long_identifier_not_recovered:
  "8 \<le> length ''abcdefghi'' \<and> list_all filename_safe ''abcdefghi'' \<and>
   segment_uri ''abcdefghi'' 0 = ''/segment.ts?file=abcdefghi0.ts'' \<and>
   parse_request ''GET'' ''/segment.ts?file=abcdefghi0.ts'' = Some (segment_req (Some ''abcdefghi0.ts'')) \<and>
   take 8 ''abcdefghi0.ts'' = ''abcdefgh'' \<and> index_of_name ''abcdefghi0.ts'' = NaN"
proof -
  have "list_all filename_safe ''abcdefghi0.ts''" by (simp add: filename_safe_def)
  then have "parse_request ''GET'' (''/segment.ts?file='' @ ''abcdefghi0.ts'') =
      Some (segment_req (Some ''abcdefghi0.ts''))"
    unfolding segment_req_def by (rule parse_segment_target)
  then show ?thesis
    by (simp add: segment_uri_def show_nat.simps digit_char_def index_of_name_def parseInt_def
          is_space_def is_digit_def filename_safe_def Let_def)
qed

text \<open>
  The characters of the identifier matter as well: the \<^verbatim>\<open>&\<close> of the identifier \<^verbatim>\<open>a&bcdefg\<close>
  ends the \<^verbatim>\<open>file\<close> parameter of the URI, and the poller is given the file name \<^verbatim>\<open>a\<close>.
\<close>

lemma unsafe_identifier_not_recovered:
  "segment_uri ''a&bcdefg'' 0 = ''/segment.ts?file=a&bcdefg0.ts'' \<and>
   parse_request ''GET'' ''/segment.ts?file=a&bcdefg0.ts'' = Some (segment_req (Some ''a''))"
  by (simp add: segment_uri_def show_nat.simps digit_char_def parse_request_def url_covered_def
        url_char_def search_of_def qs_parse_def qs_pair_def plus_to_space_def segment_req_def)

text \<open>
  Claim C10.  A request for \<^verbatim>\<open>/segment.ts\<close> without the \<^verbatim>\<open>file\<close> parameter makes the handler
  throw a \<^verbatim>\<open>TypeError\<close> in the constructor of the poller, in every state of the server.  The
  exception is not caught: the run of the event loop ends with it, whatever events were to
  follow, and nothing was written to the response, the trace is the one before the request.
\<close>

theorem segment_request_without_file:
  "handle_request (segment_req None) fresh w = Inl (TypeError, w\<lparr>requests := Suc (requests w)\<rparr>) \<and>
   failure_of (run (Request (segment_req None) fresh # evs) w) = Some TypeError \<and>
   trace (state_of (run (Request (segment_req None) fresh # evs) w)) = trace w"
  by (simp add: step_def handle_request_def segment_req_def new_poller_def state_of_def
        failure_of_def Let_def)

end
